theory Spec2Isabelle
  imports Main "HOL-Library.Word" "HOL-Library.Multiset"
begin

section \<open>Strings of the JavaScript runtime\<close>

text \<open>
  A JavaScript string is a sequence of 16-bit code units. \<open>js\<close> turns an ASCII literal of
  the theory into such a sequence, so that concrete inputs stay readable.
\<close>

type_synonym cu = "16 word"
type_synonym jstring = "cu list"

definition js :: "string \<Rightarrow> jstring" where
  "js s = map of_char s"

text \<open>\<open>text.slice(a, b)\<close> for \<open>0 \<le> a\<close>, \<open>0 \<le> b\<close>: the code units from \<open>a\<close> up to, not
  including, \<open>b\<close>, both clamped to the length; empty when \<open>b \<le> a\<close>.\<close>

definition slice :: "jstring \<Rightarrow> nat \<Rightarrow> nat \<Rightarrow> jstring" where
  "slice s a b = take (b - a) (drop a s)"

text \<open>\<open>token.startsWith(p)\<close>.\<close>

definition startsWith :: "jstring \<Rightarrow> jstring \<Rightarrow> bool" where
  "startsWith s p = (take (length p) s = p)"

text \<open>An unanchored search for a literal, as \<open>/lit/.test(s)\<close> does for each alternative
  of \<open>/true|false|null/\<close>.\<close>

fun contains_at_some :: "jstring \<Rightarrow> jstring \<Rightarrow> bool" where
  "contains_at_some p [] = (p = [])"
| "contains_at_some p (c # cs) = (startsWith (c # cs) p \<or> contains_at_some p cs)"

subsection \<open>Character classes of the regular expressions\<close>

definition is_digit :: "cu \<Rightarrow> bool" where
  \<comment> \<open>\<open>\d\<close>\<close>
  "is_digit c = (0x30 \<le> c \<and> c \<le> 0x39)"

definition is_alnum :: "cu \<Rightarrow> bool" where
  \<comment> \<open>\<open>[a-zA-Z0-9]\<close>\<close>
  "is_alnum c = ((0x61 \<le> c \<and> c \<le> 0x7A) \<or> (0x41 \<le> c \<and> c \<le> 0x5A) \<or> is_digit c)"

definition is_word :: "cu \<Rightarrow> bool" where
  \<comment> \<open>\<open>\w\<close>, the class behind \<open>\b\<close>\<close>
  "is_word c = (is_alnum c \<or> c = 0x5F)"

definition is_space :: "cu \<Rightarrow> bool" where
  \<comment> \<open>\<open>\s\<close>, and what \<open>trim\<close> strips: WhiteSpace and LineTerminator of ECMAScript\<close>
  "is_space c = (c = 0x09 \<or> c = 0x0A \<or> c = 0x0B \<or> c = 0x0C \<or> c = 0x0D \<or> c = 0x20
     \<or> c = 0xA0 \<or> c = 0x1680 \<or> (0x2000 \<le> c \<and> c \<le> 0x200A) \<or> c = 0x2028 \<or> c = 0x2029
     \<or> c = 0x202F \<or> c = 0x205F \<or> c = 0x3000 \<or> c = 0xFEFF)"

section \<open>The tokenizer of \<open>SyntaxHighlighter\<close>\<close>

text \<open>
  The scanner is driven by one global regular expression,
  \<^verbatim>\<open>("(\\u[a-zA-Z0-9]{4}|\\[^u]|[^\\"])*"(\s*:)?|\b(true|false|null)\b|-?\d+(?:\.\d*)?(?:[eE][+\-]?\d+)?)\<close>.
  Each piece of it is a function on the text that is left at the position under
  trial, giving the number of code units the piece consumes (\<open>None\<close>: no match). The
  functions try the choices of the pattern in the order of a backtracking matcher:
  the greedy choice first, the next one when what follows fails.
\<close>

subsection \<open>The string alternative\<close>

definition alt_unicode :: "jstring \<Rightarrow> nat option" where
  \<comment> \<open>\<open>\\u[a-zA-Z0-9]{4}\<close>\<close>
  "alt_unicode cs =
     (case cs of
        b # u # h1 # h2 # h3 # h4 # _ \<Rightarrow>
          if b = 0x5C \<and> u = 0x75 \<and> is_alnum h1 \<and> is_alnum h2 \<and> is_alnum h3 \<and> is_alnum h4
          then Some 6 else None
      | _ \<Rightarrow> None)"

definition alt_escape :: "jstring \<Rightarrow> nat option" where
  \<comment> \<open>\<open>\\[^u]\<close>\<close>
  "alt_escape cs =
     (case cs of b # c # _ \<Rightarrow> if b = 0x5C \<and> c \<noteq> 0x75 then Some 2 else None | _ \<Rightarrow> None)"

definition alt_plain :: "jstring \<Rightarrow> nat option" where
  \<comment> \<open>\<open>[^\\"]\<close>\<close>
  "alt_plain cs =
     (case cs of c # _ \<Rightarrow> if c \<noteq> 0x5C \<and> c \<noteq> 0x22 then Some 1 else None | _ \<Rightarrow> None)"

text \<open>\<open>\s*:\<close>, the body of group 3: white space greedily, given back one at a time
  while the colon does not follow.\<close>

fun ws_colon :: "jstring \<Rightarrow> nat option" where
  "ws_colon [] = None"
| "ws_colon (c # cs) =
     (case (if is_space c then ws_colon cs else None) of
        Some n \<Rightarrow> Some (Suc n)
      | None \<Rightarrow> if c = 0x3A then Some 1 else None)"

text \<open>The closing quote and the optional group 3. The flag tells whether group 3 took
  part in the match (\<open>match[3]\<close> is then a non-empty string, hence truthy; otherwise it
  is \<open>undefined\<close>).\<close>

definition close_quote :: "jstring \<Rightarrow> (nat \<times> bool) option" where
  "close_quote cs =
     (case cs of
        c # r \<Rightarrow>
          if c = 0x22
          then (case ws_colon r of Some n \<Rightarrow> Some (Suc n, True) | None \<Rightarrow> Some (1, False))
          else None
      | [] \<Rightarrow> None)"

text \<open>What follows the opening quote: the starred group, one more iteration first
  (its three alternatives in order), then the closing quote. The test on \<open>k\<close> holds for
  each of the alternatives; it is what the termination proof reads.\<close>

function str_tail :: "jstring \<Rightarrow> (nat \<times> bool) option" where
  "str_tail cs =
     (let iter = (\<lambda>alt.
            case alt cs of
              None \<Rightarrow> None
            | Some k \<Rightarrow>
                if 0 < k \<and> k \<le> length cs
                then (case str_tail (drop k cs) of
                        None \<Rightarrow> None
                      | Some (n, key) \<Rightarrow> Some (k + n, key))
                else None)
      in case iter alt_unicode of
           Some r \<Rightarrow> Some r
         | None \<Rightarrow>
             (case iter alt_escape of
                Some r \<Rightarrow> Some r
              | None \<Rightarrow>
                  (case iter alt_plain of
                     Some r \<Rightarrow> Some r
                   | None \<Rightarrow> close_quote cs)))"
  by pat_completeness auto
termination
  by (relation "measure length") auto

declare str_tail.simps [simp del]

definition string_match :: "jstring \<Rightarrow> (nat \<times> bool) option" where
  "string_match cs =
     (case cs of
        c # r \<Rightarrow>
          if c = 0x22
          then (case str_tail r of Some (n, key) \<Rightarrow> Some (Suc n, key) | None \<Rightarrow> None)
          else None
      | [] \<Rightarrow> None)"

subsection \<open>The keyword alternative\<close>

definition is_word_opt :: "cu option \<Rightarrow> bool" where
  "is_word_opt c = (case c of None \<Rightarrow> False | Some x \<Rightarrow> is_word x)"

text \<open>\<open>\b\<close> between the code unit before the position and the one at it (\<open>None\<close>: the
  start or the end of the text).\<close>

definition word_boundary :: "cu option \<Rightarrow> cu option \<Rightarrow> bool" where
  "word_boundary a b = (is_word_opt a \<noteq> is_word_opt b)"

definition head_opt :: "'a list \<Rightarrow> 'a option" where
  "head_opt xs = (case xs of [] \<Rightarrow> None | x # _ \<Rightarrow> Some x)"

definition last_opt :: "'a list \<Rightarrow> 'a option" where
  "last_opt xs = (if xs = [] then None else Some (last xs))"

text \<open>One literal of group 4 and the \<open>\b\<close> after it.\<close>

definition kw_alt :: "jstring \<Rightarrow> jstring \<Rightarrow> nat option" where
  "kw_alt w cs =
     (if startsWith cs w \<and> word_boundary (last_opt w) (head_opt (drop (length w) cs))
      then Some (length w) else None)"

definition kw_match :: "cu option \<Rightarrow> jstring \<Rightarrow> nat option" where
  \<comment> \<open>\<open>\b(true|false|null)\b\<close>\<close>
  "kw_match prev cs =
     (if word_boundary prev (head_opt cs)
      then (case kw_alt (js ''true'') cs of
              Some n \<Rightarrow> Some n
            | None \<Rightarrow>
                (case kw_alt (js ''false'') cs of
                   Some n \<Rightarrow> Some n
                 | None \<Rightarrow> kw_alt (js ''null'') cs))
      else None)"

subsection \<open>The number alternative\<close>

definition digits :: "jstring \<Rightarrow> nat" where
  \<comment> \<open>\<open>\d*\<close>, greedy\<close>
  "digits cs = length (takeWhile is_digit cs)"

definition digits1 :: "jstring \<Rightarrow> nat option" where
  \<comment> \<open>\<open>\d+\<close>, greedy\<close>
  "digits1 cs = (let n = digits cs in if 0 < n then Some n else None)"

definition frac_part :: "jstring \<Rightarrow> nat" where
  \<comment> \<open>\<open>(?:\.\d*)?\<close>\<close>
  "frac_part cs = (case cs of c # r \<Rightarrow> if c = 0x2E then Suc (digits r) else 0 | [] \<Rightarrow> 0)"

definition exp_body :: "jstring \<Rightarrow> nat option" where
  \<comment> \<open>\<open>[+\-]?\d+\<close>: with the sign first, without it when the digits fail\<close>
  "exp_body cs =
     (case (case cs of
              c # r \<Rightarrow> if c = 0x2B \<or> c = 0x2D then map_option Suc (digits1 r) else None
            | [] \<Rightarrow> None) of
        Some n \<Rightarrow> Some n
      | None \<Rightarrow> digits1 cs)"

definition exp_part :: "jstring \<Rightarrow> nat" where
  \<comment> \<open>\<open>(?:[eE][+\-]?\d+)?\<close>\<close>
  "exp_part cs =
     (case cs of
        c # r \<Rightarrow>
          if c = 0x65 \<or> c = 0x45
          then (case exp_body r of Some n \<Rightarrow> Suc n | None \<Rightarrow> 0)
          else 0
      | [] \<Rightarrow> 0)"

definition num_unsigned :: "jstring \<Rightarrow> nat option" where
  \<comment> \<open>\<open>\d+(?:\.\d*)?(?:[eE][+\-]?\d+)?\<close>: nothing follows the optional groups, so
      each takes its greedy choice\<close>
  "num_unsigned cs =
     (case digits1 cs of
        None \<Rightarrow> None
      | Some n \<Rightarrow>
          (let f = frac_part (drop n cs); e = exp_part (drop (n + f) cs)
           in Some (n + f + e)))"

definition num_match :: "jstring \<Rightarrow> nat option" where
  \<comment> \<open>\<open>-?\<close> and the rest: with the minus sign first, without it when the rest fails\<close>
  "num_match cs =
     (case (case cs of
              c # r \<Rightarrow> if c = 0x2D then map_option Suc (num_unsigned r) else None
            | [] \<Rightarrow> None) of
        Some n \<Rightarrow> Some n
      | None \<Rightarrow> num_unsigned cs)"

subsection \<open>\<open>regex.exec\<close>\<close>

text \<open>The whole pattern tried at one position: \<open>prev\<close> is the code unit before it,
  \<open>cs\<close> the text from it on. The result is the length of \<open>match[0]\<close> and whether group 3
  took part.\<close>

definition match_at :: "cu option \<Rightarrow> jstring \<Rightarrow> (nat \<times> bool) option" where
  "match_at prev cs =
     (case string_match cs of
        Some m \<Rightarrow> Some m
      | None \<Rightarrow>
          (case kw_match prev cs of
             Some n \<Rightarrow> Some (n, False)
           | None \<Rightarrow>
               (case num_match cs of
                  Some n \<Rightarrow> Some (n, False)
                | None \<Rightarrow> None)))"

text \<open>The leftmost position from \<open>i\<close> on at which the pattern matches, the end of the
  text included.\<close>

fun search :: "cu option \<Rightarrow> jstring \<Rightarrow> nat \<Rightarrow> (nat \<times> nat \<times> bool) option" where
  "search prev [] i = (case match_at prev [] of Some (n, key) \<Rightarrow> Some (i, n, key) | None \<Rightarrow> None)"
| "search prev (c # cs) i =
     (case match_at prev (c # cs) of
        Some (n, key) \<Rightarrow> Some (i, n, key)
      | None \<Rightarrow> search (Some c) cs (Suc i))"

text \<open>\<open>regex.exec(text)\<close> of a global expression whose \<open>lastIndex\<close> is the second
  argument: \<open>None\<close> is \<open>null\<close>; \<open>Some (index, n, key)\<close> is a match at \<open>match.index = index\<close>
  of length \<open>n\<close>, after which \<open>regex.lastIndex = index + n\<close>.\<close>

definition regex_exec :: "jstring \<Rightarrow> nat \<Rightarrow> (nat \<times> nat \<times> bool) option" where
  "regex_exec text lastIndex =
     (if length text < lastIndex then None
      else search (if lastIndex = 0 then None else Some (text ! (lastIndex - 1)))
             (drop lastIndex text) lastIndex)"

subsection \<open>The scan loop\<close>

datatype token_type = TText | TKey | TString | TBoolean | TNumber

record token =
  ttype :: token_type
  content :: jstring

text \<open>The \<open>if\<close> chain that types a lexeme: \<open>match[3]\<close>, then \<open>startsWith('"')\<close>, then
  \<open>/true|false|null/.test(token)\<close>.\<close>

definition classify :: "bool \<Rightarrow> jstring \<Rightarrow> token_type" where
  "classify key tok =
     (if key then TKey
      else if startsWith tok [0x22] then TString
      else if contains_at_some (js ''true'') tok \<or> contains_at_some (js ''false'') tok
              \<or> contains_at_some (js ''null'') tok then TBoolean
      else TNumber)"

text \<open>The \<open>while\<close> loop and what follows it; \<open>parts\<close> is the array built so far.\<close>

function scan :: "jstring \<Rightarrow> nat \<Rightarrow> token list \<Rightarrow> token list" where
  "scan text lastIndex parts =
     (case regex_exec text lastIndex of
        None \<Rightarrow>
          (if lastIndex < length text
           then parts @ [\<lparr>ttype = TText, content = slice text lastIndex (length text)\<rparr>]
           else parts)
      | Some (index, n, key) \<Rightarrow>
          (let parts1 =
                 (if lastIndex < index
                  then parts @ [\<lparr>ttype = TText, content = slice text lastIndex index\<rparr>]
                  else parts);
               tok = slice text index (index + n);
               parts2 = parts1 @ [\<lparr>ttype = classify key tok, content = tok\<rparr>]
           in scan text (index + n) parts2))"
  by pat_completeness auto

text \<open>The loop ends: no alternative of the pattern matches the empty string, so each
  match moves \<open>lastIndex\<close> forward, and never past the end of the text.\<close>

lemma ws_colon_bounds: "ws_colon cs = Some n \<Longrightarrow> 0 < n \<and> n \<le> length cs"
  by (induction cs arbitrary: n) (auto split: option.splits if_splits)

lemma close_quote_bounds: "close_quote cs = Some (n, key) \<Longrightarrow> 0 < n \<and> n \<le> length cs"
  by (auto simp: close_quote_def split: list.splits if_splits option.splits dest: ws_colon_bounds)

lemma kw_alt_bounds: "w \<noteq> [] \<Longrightarrow> kw_alt w cs = Some n \<Longrightarrow> 0 < n \<and> n \<le> length cs"
  unfolding kw_alt_def startsWith_def
  by (auto split: if_splits)

lemma digits_le: "digits cs \<le> length cs"
  by (simp add: digits_def length_takeWhile_le)

lemma digits1_bounds: "digits1 cs = Some n \<Longrightarrow> 0 < n \<and> n \<le> length cs"
  using digits_le[of cs] by (auto simp: digits1_def Let_def split: if_splits)

lemma frac_part_le: "frac_part cs \<le> length cs"
  using digits_le by (auto simp: frac_part_def split: list.splits)

lemma str_tail_bounds: "str_tail cs = Some (n, key) \<Longrightarrow> 0 < n \<and> n \<le> length cs"
proof (induction cs arbitrary: n key rule: str_tail.induct)
  case (1 cs)
  define iter where "iter = (\<lambda>alt.
            case alt cs of
              None \<Rightarrow> None
            | Some k \<Rightarrow>
                if 0 < k \<and> k \<le> length cs
                then (case str_tail (drop k cs) of
                        None \<Rightarrow> None
                      | Some (n, key) \<Rightarrow> Some (k + n, key))
                else None)"
  have step: "0 < m \<and> m \<le> length cs" if "iter alt = Some (m, key')" for alt m key'
  proof -
    from that obtain k j where k: "alt cs = Some k" "0 < k \<and> k \<le> length cs"
      and j: "str_tail (drop k cs) = Some (j, key')" and m: "m = k + j"
      by (auto simp: iter_def split: option.splits if_splits)
    from "1.IH"[of alt k j key', OF k j] have "0 < j \<and> j \<le> length (drop k cs)" .
    with k m show ?thesis by auto
  qed
  have unf: "str_tail cs =
     (case iter alt_unicode of Some r \<Rightarrow> Some r
      | None \<Rightarrow> (case iter alt_escape of Some r \<Rightarrow> Some r
         | None \<Rightarrow> (case iter alt_plain of Some r \<Rightarrow> Some r | None \<Rightarrow> close_quote cs)))"
    by (subst str_tail.simps) (simp add: iter_def Let_def cong: option.case_cong)
  from "1.prems" show ?case
    unfolding unf
    by (auto split: option.splits dest!: step close_quote_bounds)
qed

lemma string_match_bounds: "string_match cs = Some (n, key) \<Longrightarrow> 0 < n \<and> n \<le> length cs"
  by (auto simp: string_match_def split: list.splits if_splits option.splits dest: str_tail_bounds)

lemma kw_match_bounds: "kw_match prev cs = Some n \<Longrightarrow> 0 < n \<and> n \<le> length cs"
  unfolding kw_match_def
  by (auto simp: js_def split: if_splits option.splits dest!: kw_alt_bounds[rotated])

lemma exp_body_bounds: "exp_body cs = Some n \<Longrightarrow> 0 < n \<and> n \<le> length cs"
  by (auto simp: exp_body_def split: list.splits if_splits option.splits dest!: digits1_bounds)

lemma exp_part_le: "exp_part cs \<le> length cs"
  by (auto simp: exp_part_def split: list.splits option.splits dest!: exp_body_bounds)

lemma num_unsigned_bounds: "num_unsigned cs = Some n \<Longrightarrow> 0 < n \<and> n \<le> length cs"
proof -
  assume a: "num_unsigned cs = Some n"
  then obtain d where d: "digits1 cs = Some d"
    and n: "n = d + frac_part (drop d cs) + exp_part (drop (d + frac_part (drop d cs)) cs)"
    by (auto simp: num_unsigned_def Let_def split: option.splits)
  from digits1_bounds[OF d] have d0: "0 < d" "d \<le> length cs" by auto
  have f: "frac_part (drop d cs) \<le> length cs - d"
    using frac_part_le[of "drop d cs"] by simp
  have e: "exp_part (drop (d + frac_part (drop d cs)) cs) \<le> length cs - (d + frac_part (drop d cs))"
    using exp_part_le[of "drop (d + frac_part (drop d cs)) cs"] by simp
  from d0 f e n show ?thesis by linarith
qed

lemma num_match_bounds: "num_match cs = Some n \<Longrightarrow> 0 < n \<and> n \<le> length cs"
  by (auto simp: num_match_def split: list.splits if_splits option.splits dest!: num_unsigned_bounds)

lemma match_at_bounds: "match_at prev cs = Some (n, key) \<Longrightarrow> 0 < n \<and> n \<le> length cs"
  by (auto simp: match_at_def split: option.splits
        dest!: string_match_bounds kw_match_bounds num_match_bounds)

lemma search_bounds:
  "search prev cs i = Some (index, n, key) \<Longrightarrow> i \<le> index \<and> 0 < n \<and> index + n \<le> i + length cs"
proof (induction cs arbitrary: prev i)
  case Nil
  then show ?case by (auto split: option.splits dest!: match_at_bounds)
next
  case (Cons c cs)
  show ?case
  proof (cases "match_at prev (c # cs)")
    case None
    with Cons.prems have "search (Some c) cs (Suc i) = Some (index, n, key)" by simp
    from Cons.IH[OF this] show ?thesis by simp
  next
    case (Some m)
    with Cons.prems show ?thesis by (auto dest!: match_at_bounds)
  qed
qed

lemma regex_exec_bounds:
  "regex_exec text lastIndex = Some (index, n, key) \<Longrightarrow>
     lastIndex \<le> index \<and> 0 < n \<and> index + n \<le> length text"
  by (auto simp: regex_exec_def split: if_splits dest!: search_bounds)

termination scan
  by (relation "measure (\<lambda>(text, lastIndex, parts). length text - lastIndex)")
     (auto dest!: regex_exec_bounds)

declare scan.simps [simp del]

definition tokenize :: "jstring \<Rightarrow> token list" where
  "tokenize text = scan text 0 []"

text \<open>Two \<open>text\<close> tokens next to each other somewhere in a token list, and a token list
  whose last token is a \<open>text\<close> token.\<close>

fun adjacent_text :: "token list \<Rightarrow> bool" where
  "adjacent_text (a # b # ts) = ((ttype a = TText \<and> ttype b = TText) \<or> adjacent_text (b # ts))"
| "adjacent_text _ = False"

definition ends_in_text :: "token list \<Rightarrow> bool" where
  "ends_in_text ts = (case last_opt ts of None \<Rightarrow> False | Some t \<Rightarrow> ttype t = TText)"

section \<open>Values of the runtime\<close>

subsection \<open>Numbers\<close>

text \<open>
  A Number that \<open>JSON.parse\<close> can produce is a finite IEEE 754 double, a negative zero or
  an infinity (a literal too large for a double). \<open>Dbl m e\<close> is the double \<open>m * 2^e\<close>, with
  \<open>m\<close> odd, or \<open>m = 0\<close> and \<open>e = 0\<close> for \<open>+0\<close>; every finite double but \<open>-0\<close> has one such form.
\<close>

datatype jsnum = Dbl int int | NegZero | PosInf | NegInf

function norm_dbl :: "int \<Rightarrow> int \<Rightarrow> jsnum" where
  "norm_dbl m e =
     (if m = 0 then Dbl 0 0 else if even m then norm_dbl (m div 2) (e + 1) else Dbl m e)"
  by pat_completeness auto
termination
  by (relation "measure (\<lambda>(m, e). nat \<bar>m\<bar>)") auto

text \<open>The number of digits of \<open>n\<close> in base \<open>b\<close>.\<close>

function ndigits :: "int \<Rightarrow> int \<Rightarrow> nat" where
  "ndigits b n = (if n \<le> 0 \<or> b < 2 then 0 else Suc (ndigits b (n div b)))"
  by pat_completeness auto
termination
  by (relation "measure (\<lambda>(b, n). nat n)") (auto intro: int_div_less_self)

text \<open>Fractions \<open>p / q\<close> of positive integers: \<open>b^k \<le> p / q\<close>; the \<open>k\<close> with
  \<open>b^k \<le> p / q < b^(k + 1)\<close>; the fraction times \<open>b^k\<close>; the nearest integer, a tie going
  to the even one.\<close>

definition ge_pow :: "int \<Rightarrow> int \<Rightarrow> int \<Rightarrow> int \<Rightarrow> bool" where
  "ge_pow b p q k = (if 0 \<le> k then q * b ^ nat k \<le> p else q \<le> p * b ^ nat (- k))"

definition floor_log :: "int \<Rightarrow> int \<Rightarrow> int \<Rightarrow> int" where
  "floor_log b p q =
     (let k = int (ndigits b p) - int (ndigits b q) in if ge_pow b p q k then k else k - 1)"

definition scale_frac :: "int \<Rightarrow> int \<Rightarrow> int \<Rightarrow> int \<Rightarrow> int \<times> int" where
  "scale_frac b p q k = (if 0 \<le> k then (p * b ^ nat k, q) else (p, q * b ^ nat (- k)))"

definition round_half_even :: "int \<Rightarrow> int \<Rightarrow> int" where
  "round_half_even p q =
     (let d = p div q; r = p mod q
      in if 2 * r < q then d else if q < 2 * r then d + 1 else if even d then d else d + 1)"

text \<open>The double nearest to \<open>p / q > 0\<close>, as a significand of at most 53 bits and the
  exponent of its last bit (at least \<open>-1074\<close>, where the subnormal numbers end); \<open>None\<close>
  when the nearest value is beyond the largest double.\<close>

definition to_double_pos :: "int \<Rightarrow> int \<Rightarrow> (int \<times> int) option" where
  "to_double_pos p q =
     (let E = floor_log 2 p q;
          e = max E (- 1022) - 52;
          (p', q') = scale_frac 2 p q (- e);
          m = round_half_even p' q'
      in if 971 < e \<or> (e = 971 \<and> 2 ^ 53 \<le> m) then None else Some (m, e))"

text \<open>The Number value of the decimal literal with sign \<open>neg\<close> and magnitude \<open>d * 10^x\<close>.\<close>

definition to_number :: "bool \<Rightarrow> int \<Rightarrow> int \<Rightarrow> jsnum" where
  "to_number neg d x =
     (if d = 0 then (if neg then NegZero else Dbl 0 0)
      else (case (let (p, q) = scale_frac 10 d 1 x in to_double_pos p q) of
              None \<Rightarrow> if neg then NegInf else PosInf
            | Some (m, e) \<Rightarrow>
                if m = 0 then (if neg then NegZero else Dbl 0 0)
                else norm_dbl (if neg then - m else m) e))"

text \<open>\<open>Number::toString\<close>: the shortest decimal \<open>s * 10^(n - k)\<close> of \<open>k\<close> digits that reads
  back as the same double, the nearest to it among the shortest. For each \<open>k\<close> only the two
  \<open>k\<close>-digit decimals around the value can read back as it; seventeen digits always do.\<close>

definition round_trips :: "jsnum \<Rightarrow> int \<Rightarrow> int \<Rightarrow> bool" where
  "round_trips x s t = (to_number False s t = x)"

definition candidates :: "int \<Rightarrow> int \<Rightarrow> nat \<Rightarrow> (int \<times> int) list" where
  "candidates p q k =
     (let n = floor_log 10 p q + 1;
          (p', q') = scale_frac 10 p q (int k - n);
          lo = p' div q'; r = p' mod q';
          ss = (if r = 0 then [lo]
                else if 2 * r < q' \<or> (2 * r = q' \<and> even lo) then [lo, lo + 1]
                else [lo + 1, lo])
      in map (\<lambda>s. if s = 10 ^ k then (10 ^ (k - 1), n + 1) else (s, n)) ss)"

definition shortest :: "int \<Rightarrow> int \<Rightarrow> int \<times> int" where
  "shortest m e =
     (let (p, q) = scale_frac 2 m 1 e;
          ok = (\<lambda>k (s, n). round_trips (norm_dbl m e) s (n - int k))
      in case List.find (\<lambda>(k, c). ok k c)
                (concat (map (\<lambda>k. map (\<lambda>c. (k, c)) (candidates p q k)) [1..<17])) of
           Some (k, c) \<Rightarrow> c
         | None \<Rightarrow> hd (candidates p q 17))"

function digits_of :: "int \<Rightarrow> jstring" where
  "digits_of n =
     (if n < 10 then [of_int (48 + n)]
      else digits_of (n div 10) @ [of_int (48 + n mod 10)])"
  by pat_completeness auto
termination
  by (relation "measure nat") (auto intro: int_div_less_self)

definition pos_to_string :: "int \<Rightarrow> int \<Rightarrow> jstring" where
  "pos_to_string m e =
     (let (s, n) = shortest m e; ds = digits_of s; k = int (length ds)
      in if k \<le> n \<and> n \<le> 21 then ds @ replicate (nat (n - k)) 0x30
         else if 0 < n \<and> n \<le> 21 then take (nat n) ds @ [0x2E] @ drop (nat n) ds
         else if - 6 < n \<and> n \<le> 0 then js ''0.'' @ replicate (nat (- n)) 0x30 @ ds
         else (let ex = n - 1;
                   es = (if ex < 0 then [0x2D] else [0x2B]) @ digits_of \<bar>ex\<bar>
               in if k = 1 then ds @ [0x65] @ es
                  else [hd ds] @ [0x2E] @ tl ds @ [0x65] @ es))"

definition Number_toString :: "jsnum \<Rightarrow> jstring" where
  "Number_toString x =
     (case x of
        NegZero \<Rightarrow> js ''0''
      | PosInf \<Rightarrow> js ''Infinity''
      | NegInf \<Rightarrow> js ''-Infinity''
      | Dbl m e \<Rightarrow>
          if m = 0 then js ''0''
          else if m < 0 then [0x2D] @ pos_to_string (- m) e
          else pos_to_string m e)"

text \<open>\<open>TimeClip\<close> of a Number: \<open>NaN\<close> (\<open>None\<close>) beyond \<open>8.64 * 10^15\<close> in magnitude,
  otherwise the value cut to an integer.\<close>

definition time_clip_num :: "jsnum \<Rightarrow> int option" where
  "time_clip_num x =
     (case x of
        Dbl m e \<Rightarrow>
          if 0 \<le> e
          then (if 8640000000000000 < \<bar>m\<bar> * 2 ^ nat e then None else Some (m * 2 ^ nat e))
          else (if 8640000000000000 * 2 ^ nat (- e) < \<bar>m\<bar> then None
                else Some (sgn m * (\<bar>m\<bar> div 2 ^ nat (- e))))
      | NegZero \<Rightarrow> Some 0
      | PosInf \<Rightarrow> None
      | NegInf \<Rightarrow> None)"

subsection \<open>Values and exceptions\<close>

text \<open>
  The values the program handles: what \<open>JSON.parse\<close> builds, and \<open>undefined\<close>, which
  reading a missing property gives. The properties of an object are listed in the order
  in which the runtime enumerates them. An exception is a \<open>SyntaxError\<close> or a \<open>TypeError\<close> of
  the runtime (the text of its message is the engine's own, and never empty), or the
  \<open>Error\<close> the program throws, with its message.
\<close>

datatype jsval =
    JUndefined
  | JNull
  | JBool bool
  | JNum jsnum
  | JStr jstring
  | JArr "jsval list"
  | JObj "(jstring \<times> jsval) list"

datatype exn = SyntaxError | TypeError | Error jstring

definition bindE :: "exn + 'a \<Rightarrow> ('a \<Rightarrow> exn + 'b) \<Rightarrow> exn + 'b" where
  "bindE m f = (case m of Inl e \<Rightarrow> Inl e | Inr x \<Rightarrow> f x)"

text \<open>\<open>ToBoolean\<close>.\<close>

definition truthy :: "jsval \<Rightarrow> bool" where
  "truthy v =
     (case v of
        JUndefined \<Rightarrow> False
      | JNull \<Rightarrow> False
      | JBool b \<Rightarrow> b
      | JNum n \<Rightarrow> n \<noteq> Dbl 0 0 \<and> n \<noteq> NegZero
      | JStr s \<Rightarrow> s \<noteq> []
      | JArr _ \<Rightarrow> True
      | JObj _ \<Rightarrow> True)"

text \<open>Reading the property \<open>k\<close> of \<open>v\<close>, for a name that no built-in prototype defines
  (\<open>timestamp\<close>, \<open>jsonPayload\<close> and \<open>message\<close> are such names): a \<open>TypeError\<close> on \<open>null\<close> and
  \<open>undefined\<close>, the own property of an object, \<open>undefined\<close> otherwise.\<close>

definition get_prop :: "jsval \<Rightarrow> jstring \<Rightarrow> exn + jsval" where
  "get_prop v k =
     (case v of
        JUndefined \<Rightarrow> Inl TypeError
      | JNull \<Rightarrow> Inl TypeError
      | JObj ps \<Rightarrow> Inr (case map_of ps k of Some x \<Rightarrow> x | None \<Rightarrow> JUndefined)
      | _ \<Rightarrow> Inr JUndefined)"

subsection \<open>\<open>JSON.parse\<close>\<close>

definition json_ws :: "cu \<Rightarrow> bool" where
  "json_ws c = (c = 0x20 \<or> c = 0x09 \<or> c = 0x0A \<or> c = 0x0D)"

definition skip_ws :: "jstring \<Rightarrow> jstring" where
  "skip_ws cs = dropWhile json_ws cs"

definition hex_val :: "cu \<Rightarrow> cu option" where
  "hex_val c =
     (if is_digit c then Some (c - 0x30)
      else if 0x61 \<le> c \<and> c \<le> 0x66 then Some (c - 0x57)
      else if 0x41 \<le> c \<and> c \<le> 0x46 then Some (c - 0x37)
      else None)"

definition escape_char :: "cu \<Rightarrow> cu option" where
  "escape_char c =
     (if c = 0x22 \<or> c = 0x5C \<or> c = 0x2F then Some c
      else if c = 0x62 then Some 0x08
      else if c = 0x66 then Some 0x0C
      else if c = 0x6E then Some 0x0A
      else if c = 0x72 then Some 0x0D
      else if c = 0x74 then Some 0x09
      else None)"

text \<open>The characters of a string after its opening quote: the value of the string and
  what follows its closing quote.\<close>

fun parse_chars :: "jstring \<Rightarrow> jstring \<Rightarrow> (jstring \<times> jstring) option" where
  "parse_chars [] acc = None"
| "parse_chars (c # cs) acc =
     (if c = 0x22 then Some (acc, cs)
      else if c = 0x5C then
        (case cs of
           [] \<Rightarrow> None
         | e # r \<Rightarrow>
             if e = 0x75 then
               (case r of
                  h1 # h2 # h3 # h4 # r' \<Rightarrow>
                    (case (hex_val h1, hex_val h2, hex_val h3, hex_val h4) of
                       (Some a, Some b, Some c, Some d) \<Rightarrow>
                         parse_chars r' (acc @ [a * 0x1000 + b * 0x100 + c * 0x10 + d])
                     | _ \<Rightarrow> None)
                | _ \<Rightarrow> None)
             else (case escape_char e of
                     Some x \<Rightarrow> parse_chars r (acc @ [x])
                   | None \<Rightarrow> None))
      else if c < 0x20 then None
      else parse_chars cs (acc @ [c]))"

definition digits_val :: "jstring \<Rightarrow> int" where
  "digits_val ds = foldl (\<lambda>a c. 10 * a + (uint c - 48)) 0 ds"

text \<open>A number: \<open>-? (0 | [1-9][0-9]*) (. [0-9]+)? ([eE] [+-]? [0-9]+)?\<close>.\<close>

definition parse_number :: "jstring \<Rightarrow> (jsnum \<times> jstring) option" where
  "parse_number cs =
     (let neg = (case cs of c # _ \<Rightarrow> c = 0x2D | [] \<Rightarrow> False);
          cs1 = (if neg then tl cs else cs);
          intd = (case cs1 of
                    c # _ \<Rightarrow> if c = 0x30 then [c] else takeWhile is_digit cs1
                  | [] \<Rightarrow> []);
          cs2 = drop (length intd) cs1;
          dot = (case cs2 of c # _ \<Rightarrow> c = 0x2E | [] \<Rightarrow> False);
          fracd = (if dot then takeWhile is_digit (tl cs2) else []);
          cs3 = (if dot then drop (length fracd) (tl cs2) else cs2);
          ex = (case cs3 of c # _ \<Rightarrow> c = 0x65 \<or> c = 0x45 | [] \<Rightarrow> False);
          eneg = (ex \<and> (case tl cs3 of c # _ \<Rightarrow> c = 0x2D | [] \<Rightarrow> False));
          esign = (ex \<and> (case tl cs3 of c # _ \<Rightarrow> c = 0x2D \<or> c = 0x2B | [] \<Rightarrow> False));
          cs4 = (if esign then tl (tl cs3) else tl cs3);
          expd = (if ex then takeWhile is_digit cs4 else []);
          cs5 = (if ex then drop (length expd) cs4 else cs3)
      in if intd = [] \<or> (dot \<and> fracd = []) \<or> (ex \<and> expd = []) then None
         else Some (to_number neg (digits_val (intd @ fracd))
                      ((if eneg then - digits_val expd else digits_val expd) - int (length fracd)),
                    cs5))"

text \<open>Defining a property, as building an object from its text does: a key that is
  there keeps its place and takes the new value; a new key that is an array index goes
  among the array indices, in ascending order and before every other key; any other new
  key goes last.\<close>

definition array_index :: "jstring \<Rightarrow> int option" where
  "array_index k =
     (if k \<noteq> [] \<and> list_all is_digit k \<and> (length k = 1 \<or> hd k \<noteq> 0x30)
         \<and> digits_val k < 2 ^ 32 - 1
      then Some (digits_val k) else None)"

fun insert_index :: "int \<Rightarrow> jstring \<times> jsval \<Rightarrow> (jstring \<times> jsval) list \<Rightarrow> (jstring \<times> jsval) list" where
  "insert_index i kv [] = [kv]"
| "insert_index i kv (p # ps) =
     (case array_index (fst p) of
        Some j \<Rightarrow> if j < i then p # insert_index i kv ps else kv # p # ps
      | None \<Rightarrow> kv # p # ps)"

definition obj_put :: "jstring \<Rightarrow> jsval \<Rightarrow> (jstring \<times> jsval) list \<Rightarrow> (jstring \<times> jsval) list" where
  "obj_put k v ps =
     (if k \<in> set (map fst ps) then map (\<lambda>p. if fst p = k then (k, v) else p) ps
      else (case array_index k of
              Some i \<Rightarrow> insert_index i (k, v) ps
            | None \<Rightarrow> ps @ [(k, v)]))"

text \<open>A value, the elements of an array after the first bracket, the members of an
  object after the first brace: each takes the text from its first character on and
  gives what it read and the text after it. The tests on the length of what is left hold
  whenever they are reached; they are what the termination proof reads.\<close>

function parse_value :: "jstring \<Rightarrow> (jsval \<times> jstring) option"
  and parse_elements :: "jstring \<Rightarrow> jsval list \<Rightarrow> (jsval list \<times> jstring) option"
  and parse_members :: "jstring \<Rightarrow> (jstring \<times> jsval) list \<Rightarrow> ((jstring \<times> jsval) list \<times> jstring) option"
where
  "parse_value cs =
     (case cs of
        [] \<Rightarrow> None
      | c # r \<Rightarrow>
          if c = 0x7B then
            (case skip_ws r of
               [] \<Rightarrow> None
             | c' # r' \<Rightarrow>
                 if c' = 0x7D then Some (JObj [], r')
                 else (case parse_members (skip_ws r) [] of
                         None \<Rightarrow> None
                       | Some (ps, rest) \<Rightarrow> Some (JObj ps, rest)))
          else if c = 0x5B then
            (case skip_ws r of
               [] \<Rightarrow> None
             | c' # r' \<Rightarrow>
                 if c' = 0x5D then Some (JArr [], r')
                 else (case parse_elements (skip_ws r) [] of
                         None \<Rightarrow> None
                       | Some (vs, rest) \<Rightarrow> Some (JArr vs, rest)))
          else if c = 0x22 then
            (case parse_chars r [] of
               None \<Rightarrow> None
             | Some (s, rest) \<Rightarrow> Some (JStr s, rest))
          else if startsWith cs (js ''true'') then Some (JBool True, drop 4 cs)
          else if startsWith cs (js ''false'') then Some (JBool False, drop 5 cs)
          else if startsWith cs (js ''null'') then Some (JNull, drop 4 cs)
          else (case parse_number cs of
                  None \<Rightarrow> None
                | Some (n, rest) \<Rightarrow> Some (JNum n, rest)))"
| "parse_elements cs acc =
     (case parse_value cs of
        None \<Rightarrow> None
      | Some (v, rest) \<Rightarrow>
          if length rest < length cs then
            (case skip_ws rest of
               [] \<Rightarrow> None
             | c # r \<Rightarrow>
                 if c = 0x2C then parse_elements (skip_ws r) (acc @ [v])
                 else if c = 0x5D then Some (acc @ [v], r)
                 else None)
          else None)"
| "parse_members cs acc =
     (case cs of
        [] \<Rightarrow> None
      | c # r \<Rightarrow>
          if c = 0x22 then
            (case parse_chars r [] of
               None \<Rightarrow> None
             | Some (k, rest) \<Rightarrow>
                 (case skip_ws rest of
                    [] \<Rightarrow> None
                  | c2 # r2 \<Rightarrow>
                      if c2 = 0x3A \<and> length r2 < length cs then
                        (case parse_value (skip_ws r2) of
                           None \<Rightarrow> None
                         | Some (v, rest2) \<Rightarrow>
                             if length rest2 < length cs then
                               (case skip_ws rest2 of
                                  [] \<Rightarrow> None
                                | c3 # r3 \<Rightarrow>
                                    if c3 = 0x2C then parse_members (skip_ws r3) (obj_put k v acc)
                                    else if c3 = 0x7D then Some (obj_put k v acc, r3)
                                    else None)
                             else None)
                      else None))
          else None)"
  by pat_completeness auto

lemma length_skip_ws: "length (skip_ws cs) \<le> length cs"
  by (simp add: skip_ws_def length_dropWhile_le)

lemma skip_ws_Cons_length: "skip_ws cs = c # r \<Longrightarrow> length r < length cs"
  using length_skip_ws[of cs] by simp

termination parse_value
proof (relation "measure (\<lambda>x. case x of
          Inl cs \<Rightarrow> 2 * length cs
        | Inr (Inl (cs, acc)) \<Rightarrow> 2 * length cs + 1
        | Inr (Inr (cs, acc)) \<Rightarrow> 2 * length cs + 1)", goal_cases)
  case 1
  show ?case by simp
next
  case (2 cs c r c' r')
  then show ?case using length_skip_ws[of r] by simp
next
  case (3 cs c r c' r')
  then show ?case using length_skip_ws[of r] by simp
next
  case (4 cs acc)
  then show ?case by simp
next
  case (5 cs acc x2 v rest c r)
  then show ?case
    using skip_ws_Cons_length[of rest c r] length_skip_ws[of r] by simp
next
  case (6 cs acc c r x2 k rest c2 r2)
  then show ?case using length_skip_ws[of r2] by simp
next
  case (7 cs acc c r x2 k rest c2 r2 x2a v rest2 c3 r3)
  then show ?case
    using skip_ws_Cons_length[of rest2 c3 r3] length_skip_ws[of r3] by simp
qed

declare parse_value.simps [simp del] parse_elements.simps [simp del] parse_members.simps [simp del]

text \<open>\<open>JSON.parse(text)\<close>: one value between white space, and nothing else.\<close>

definition JSON_parse :: "jstring \<Rightarrow> exn + jsval" where
  "JSON_parse s =
     (case parse_value (skip_ws s) of
        None \<Rightarrow> Inl SyntaxError
      | Some (v, rest) \<Rightarrow> if skip_ws rest = [] then Inr v else Inl SyntaxError)"

subsection \<open>\<open>JSON.stringify(value, null, 2)\<close>\<close>

definition hex_digit :: "cu \<Rightarrow> cu" where
  "hex_digit d = (if d < 10 then 0x30 + d else 0x57 + d)"

definition unicode_escape :: "cu \<Rightarrow> jstring" where
  "unicode_escape c =
     [0x5C, 0x75, hex_digit (c div 0x1000), hex_digit (c div 0x100 mod 0x10),
      hex_digit (c div 0x10 mod 0x10), hex_digit (c mod 0x10)]"

text \<open>\<open>QuoteJSONString\<close> without its quotes: the short escapes, \<open>\uXXXX\<close> for the other
  control characters and for a surrogate that is not half of a pair.\<close>

fun quote_chars :: "jstring \<Rightarrow> jstring" where
  "quote_chars [] = []"
| "quote_chars (c # cs) =
     (if c = 0x08 then [0x5C, 0x62] @ quote_chars cs
      else if c = 0x09 then [0x5C, 0x74] @ quote_chars cs
      else if c = 0x0A then [0x5C, 0x6E] @ quote_chars cs
      else if c = 0x0C then [0x5C, 0x66] @ quote_chars cs
      else if c = 0x0D then [0x5C, 0x72] @ quote_chars cs
      else if c = 0x22 then [0x5C, 0x22] @ quote_chars cs
      else if c = 0x5C then [0x5C, 0x5C] @ quote_chars cs
      else if c < 0x20 then unicode_escape c @ quote_chars cs
      else if 0xD800 \<le> c \<and> c \<le> 0xDBFF then
        (case cs of
           [] \<Rightarrow> unicode_escape c
         | d # r \<Rightarrow>
             if 0xDC00 \<le> d \<and> d \<le> 0xDFFF then c # d # quote_chars r
             else unicode_escape c @ quote_chars cs)
      else if 0xDC00 \<le> c \<and> c \<le> 0xDFFF then unicode_escape c @ quote_chars cs
      else c # quote_chars cs)"

definition quote_json :: "jstring \<Rightarrow> jstring" where
  "quote_json s = [0x22] @ quote_chars s @ [0x22]"

fun join_strings :: "jstring \<Rightarrow> jstring list \<Rightarrow> jstring" where
  "join_strings sep [] = []"
| "join_strings sep [x] = x"
| "join_strings sep (x # y # ys) = x @ sep @ join_strings sep (y # ys)"

text \<open>\<open>SerializeJSONProperty\<close> with a gap of two spaces at the indentation \<open>ind\<close>; \<open>None\<close>
  is \<open>undefined\<close>.\<close>

fun serialize :: "jstring \<Rightarrow> jsval \<Rightarrow> jstring option" where
  "serialize ind JUndefined = None"
| "serialize ind JNull = Some (js ''null'')"
| "serialize ind (JBool b) = Some (if b then js ''true'' else js ''false'')"
| "serialize ind (JNum n) =
     Some (case n of PosInf \<Rightarrow> js ''null'' | NegInf \<Rightarrow> js ''null'' | _ \<Rightarrow> Number_toString n)"
| "serialize ind (JStr s) = Some (quote_json s)"
| "serialize ind (JArr vs) =
     Some (if vs = [] then js ''[]''
           else (let ind' = ind @ js ''  '';
                     parts = map (\<lambda>v. case serialize ind' v of None \<Rightarrow> js ''null'' | Some t \<Rightarrow> t) vs
                 in js ''['' @ [0x0A] @ ind' @ join_strings ([0x2C, 0x0A] @ ind') parts
                      @ [0x0A] @ ind @ js '']''))"
| "serialize ind (JObj ps) =
     Some (let ind' = ind @ js ''  '';
               parts = concat (map (\<lambda>p. case serialize ind' (snd p) of
                                          None \<Rightarrow> []
                                        | Some t \<Rightarrow> [quote_json (fst p) @ js '': '' @ t]) ps)
           in if parts = [] then js ''{}''
              else js ''{'' @ [0x0A] @ ind' @ join_strings ([0x2C, 0x0A] @ ind') parts
                     @ [0x0A] @ ind @ js ''}'')"

definition JSON_stringify :: "jsval \<Rightarrow> jstring option" where
  "JSON_stringify v = serialize [] v"

subsection \<open>Conversion to a string, \<open>join\<close>, dates\<close>

text \<open>\<open>ToString\<close>. An array converts through \<open>join\<close>; an object converts to
  \<open>[object Object]\<close>, unless it has a property \<open>toString\<close> of its own: that property is
  not a function then, and neither \<open>toString\<close> nor \<open>valueOf\<close> yields a primitive value. The
  conversion of arrays and objects to a primitive value for \<open>new Date\<close> ends the same way.\<close>

fun ToString :: "jsval \<Rightarrow> exn + jstring"
  and ToString_elems :: "jsval list \<Rightarrow> exn + jstring list"
where
  "ToString JUndefined = Inr (js ''undefined'')"
| "ToString JNull = Inr (js ''null'')"
| "ToString (JBool b) = Inr (if b then js ''true'' else js ''false'')"
| "ToString (JNum n) = Inr (Number_toString n)"
| "ToString (JStr s) = Inr s"
| "ToString (JArr vs) = bindE (ToString_elems vs) (\<lambda>parts. Inr (join_strings (js '','') parts))"
| "ToString (JObj ps) =
     (if js ''toString'' \<in> set (map fst ps) then Inl TypeError else Inr (js ''[object Object]''))"
| "ToString_elems [] = Inr []"
| "ToString_elems (v # vs) =
     bindE (if v = JUndefined \<or> v = JNull then Inr [] else ToString v)
       (\<lambda>s. bindE (ToString_elems vs) (\<lambda>r. Inr (s # r)))"

text \<open>\<open>array.join(sep)\<close>.\<close>

definition array_join :: "jsval list \<Rightarrow> jstring \<Rightarrow> exn + jstring" where
  "array_join vs sep = bindE (ToString_elems vs) (\<lambda>parts. Inr (join_strings sep parts))"

definition time_clip :: "int option \<Rightarrow> int option" where
  "time_clip t =
     (case t of None \<Rightarrow> None | Some x \<Rightarrow> if 8640000000000000 < \<bar>x\<bar> then None else Some x)"

text \<open>\<open>new Date(v).getTime()\<close>: a time in milliseconds, or \<open>NaN\<close> (\<open>None\<close>). How a string is
  read as a date is the engine's own matter beyond the ISO format, so \<open>Date.parse\<close> is the
  parameter \<open>dp\<close> of the model.\<close>

definition Date_getTime :: "(jstring \<Rightarrow> int option) \<Rightarrow> jsval \<Rightarrow> exn + int option" where
  "Date_getTime dp v =
     (case v of
        JUndefined \<Rightarrow> Inr None
      | JNull \<Rightarrow> Inr (Some 0)
      | JBool b \<Rightarrow> Inr (Some (if b then 1 else 0))
      | JNum n \<Rightarrow> Inr (time_clip_num n)
      | JStr s \<Rightarrow> Inr (time_clip (dp s))
      | _ \<Rightarrow> bindE (ToString v) (\<lambda>s. Inr (time_clip (dp s))))"

subsection \<open>Methods of strings and arrays\<close>

text \<open>\<open>s.trim()\<close>.\<close>

definition trim :: "jstring \<Rightarrow> jstring" where
  "trim s = rev (dropWhile is_space (rev (dropWhile is_space s)))"

text \<open>\<open>s.indexOf(p)\<close> and \<open>s.lastIndexOf(p)\<close>: \<open>-1\<close> when \<open>p\<close> does not occur.\<close>

fun index_from :: "jstring \<Rightarrow> jstring \<Rightarrow> nat \<Rightarrow> int" where
  "index_from p [] i = (if p = [] then int i else - 1)"
| "index_from p (c # cs) i = (if startsWith (c # cs) p then int i else index_from p cs (Suc i))"

definition indexOf :: "jstring \<Rightarrow> jstring \<Rightarrow> int" where
  "indexOf s p = index_from p s 0"

fun last_index_from :: "jstring \<Rightarrow> jstring \<Rightarrow> nat \<Rightarrow> int" where
  "last_index_from p [] i = (if p = [] then int i else - 1)"
| "last_index_from p (c # cs) i =
     (let r = last_index_from p cs (Suc i)
      in if r \<noteq> - 1 then r else if startsWith (c # cs) p then int i else - 1)"

definition lastIndexOf :: "jstring \<Rightarrow> jstring \<Rightarrow> int" where
  "lastIndexOf s p = last_index_from p s 0"

text \<open>\<open>s.substring(a, b)\<close>: both ends clamped to the string, and swapped when \<open>b < a\<close>;
  \<open>s.substring(a)\<close> runs to the end.\<close>

definition substring :: "jstring \<Rightarrow> int \<Rightarrow> int \<Rightarrow> jstring" where
  "substring s a b =
     (let len = int (length s);
          a' = min (max a 0) len;
          b' = min (max b 0) len
      in slice s (nat (min a' b')) (nat (max a' b')))"

definition substring_from :: "jstring \<Rightarrow> int \<Rightarrow> jstring" where
  "substring_from s a = substring s a (int (length s))"

text \<open>\<open>array.indexOf(x)\<close> and \<open>array.lastIndexOf(x)\<close> for a string \<open>x\<close>: strict equality,
  which only a string element with the same text meets.\<close>

fun array_index_from :: "jstring \<Rightarrow> jsval list \<Rightarrow> nat \<Rightarrow> int" where
  "array_index_from p [] i = - 1"
| "array_index_from p (v # vs) i = (if v = JStr p then int i else array_index_from p vs (Suc i))"

fun array_last_index_from :: "jstring \<Rightarrow> jsval list \<Rightarrow> nat \<Rightarrow> int" where
  "array_last_index_from p [] i = - 1"
| "array_last_index_from p (v # vs) i =
     (let r = array_last_index_from p vs (Suc i)
      in if r \<noteq> - 1 then r else if v = JStr p then int i else - 1)"

text \<open>The method calls of \<open>formatMessage\<close> on a value of any type: strings and arrays
  have \<open>indexOf\<close> and \<open>lastIndexOf\<close>, only strings have \<open>substring\<close>; calling what is not a
  function, or reading a property of \<open>null\<close> or \<open>undefined\<close>, is a \<open>TypeError\<close>.\<close>

definition call_indexOf :: "jsval \<Rightarrow> jstring \<Rightarrow> exn + int" where
  "call_indexOf v p =
     (case v of
        JStr s \<Rightarrow> Inr (indexOf s p)
      | JArr vs \<Rightarrow> Inr (array_index_from p vs 0)
      | _ \<Rightarrow> Inl TypeError)"

definition call_lastIndexOf :: "jsval \<Rightarrow> jstring \<Rightarrow> exn + int" where
  "call_lastIndexOf v p =
     (case v of
        JStr s \<Rightarrow> Inr (lastIndexOf s p)
      | JArr vs \<Rightarrow> Inr (array_last_index_from p vs 0)
      | _ \<Rightarrow> Inl TypeError)"

definition call_substring :: "jsval \<Rightarrow> int \<Rightarrow> int \<Rightarrow> exn + jstring" where
  "call_substring v a b = (case v of JStr s \<Rightarrow> Inr (substring s a b) | _ \<Rightarrow> Inl TypeError)"

definition call_substring_from :: "jsval \<Rightarrow> int \<Rightarrow> exn + jstring" where
  "call_substring_from v a = (case v of JStr s \<Rightarrow> Inr (substring_from s a) | _ \<Rightarrow> Inl TypeError)"

section \<open>The extraction of \<open>Home\<close>\<close>

subsection \<open>\<open>formatMessage\<close>\<close>

text \<open>The inner \<open>try\<close> block: parse the candidate, serialize it, splice it in.\<close>

definition reformat :: "jsval \<Rightarrow> int \<Rightarrow> int \<Rightarrow> jstring \<Rightarrow> exn + jsval" where
  "reformat message firstBrace lastBrace potentialJson =
     bindE (JSON_parse potentialJson) (\<lambda>parsed.
       let formattedJson = (case JSON_stringify parsed of
                              None \<Rightarrow> js ''undefined''
                            | Some t \<Rightarrow> t)
       in bindE (call_substring message 0 firstBrace) (\<lambda>before.
          bindE (call_substring_from message (lastBrace + 1)) (\<lambda>after.
            Inr (JStr (before @ formattedJson @ after)))))"

text \<open>The outer \<open>try\<close> block; the inner \<open>catch\<close> gives the message back.\<close>

definition formatMessage_try :: "jsval \<Rightarrow> exn + jsval" where
  "formatMessage_try message =
     bindE (call_indexOf message (js ''{'')) (\<lambda>firstBrace.
     bindE (call_lastIndexOf message (js ''}'')) (\<lambda>lastBrace.
       if firstBrace \<noteq> - 1 \<and> lastBrace \<noteq> - 1 \<and> firstBrace < lastBrace then
         bindE (call_substring message firstBrace (lastBrace + 1)) (\<lambda>potentialJson.
           case reformat message firstBrace lastBrace potentialJson of
             Inl e \<Rightarrow> Inr message
           | Inr r \<Rightarrow> Inr r)
       else Inr message))"

text \<open>The outer \<open>catch\<close> gives the message back as well.\<close>

definition formatMessage :: "jsval \<Rightarrow> jsval" where
  "formatMessage message = (case formatMessage_try message of Inl e \<Rightarrow> message | Inr r \<Rightarrow> r)"

subsection \<open>Sorting by time\<close>

text \<open>The comparison function of the sort: \<open>timeA - timeB\<close>, which is \<open>NaN\<close> (\<open>None\<close>) when
  one of the times is. Both times are at most \<open>8.64 * 10^15\<close> in magnitude, so the
  difference of the doubles has the sign of the difference of the integers.\<close>

definition log_time :: "(jstring \<Rightarrow> int option) \<Rightarrow> jsval \<Rightarrow> exn + int option" where
  "log_time dp a = bindE (get_prop a (js ''timestamp'')) (Date_getTime dp)"

definition compare_logs :: "(jstring \<Rightarrow> int option) \<Rightarrow> jsval \<Rightarrow> jsval \<Rightarrow> exn + int option" where
  "compare_logs dp a b =
     bindE (log_time dp a) (\<lambda>timeA.
     bindE (log_time dp b) (\<lambda>timeB.
       Inr (case timeA of
              None \<Rightarrow> None
            | Some x \<Rightarrow> (case timeB of None \<Rightarrow> None | Some y \<Rightarrow> Some (x - y)))))"

text \<open>
  \<open>array.sort(comparefn)\<close>. The standard asks for a stable sort and leaves the calls of
  the comparison function to the engine; with a comparison that is no consistent order
  (here: when a time is \<open>NaN\<close>) it leaves the resulting order to the engine, too. The model
  is the insertion sort: each element in turn moves left past the elements that compare
  greater than it. A result of the comparison that is \<open>NaN\<close> counts as \<open>+0\<close>; an exception
  of the comparison ends the sort. For a consistent comparison every stable sort gives
  the list the model gives. Where a time is \<open>NaN\<close> the order of the model is one that an
  engine may give and need not be the order of a given engine: the general properties
  below rely on the order of the result only where every time is valid.
\<close>

definition comes_after :: "int option \<Rightarrow> bool" where
  "comes_after v = (case v of None \<Rightarrow> False | Some d \<Rightarrow> 0 < d)"

text \<open>\<open>ys\<close> is the sorted part, last element first.\<close>

fun insert_sorted :: "('a \<Rightarrow> 'a \<Rightarrow> exn + int option) \<Rightarrow> 'a \<Rightarrow> 'a list \<Rightarrow> exn + 'a list" where
  "insert_sorted cmp x [] = Inr [x]"
| "insert_sorted cmp x (y # ys) =
     bindE (cmp y x) (\<lambda>v.
       if comes_after v then bindE (insert_sorted cmp x ys) (\<lambda>r. Inr (y # r))
       else Inr (x # y # ys))"

fun sort_into :: "('a \<Rightarrow> 'a \<Rightarrow> exn + int option) \<Rightarrow> 'a list \<Rightarrow> 'a list \<Rightarrow> exn + 'a list" where
  "sort_into cmp [] ys = Inr (rev ys)"
| "sort_into cmp (x # xs) ys = bindE (insert_sorted cmp x ys) (sort_into cmp xs)"

definition array_sort :: "('a \<Rightarrow> 'a \<Rightarrow> exn + int option) \<Rightarrow> 'a list \<Rightarrow> exn + 'a list" where
  "array_sort cmp xs = sort_into cmp xs []"

subsection \<open>The effect\<close>

text \<open>\<open>array.filter\<close> and \<open>array.map\<close> with a callback that may throw.\<close>

fun filterE :: "('a \<Rightarrow> exn + bool) \<Rightarrow> 'a list \<Rightarrow> exn + 'a list" where
  "filterE f [] = Inr []"
| "filterE f (x # xs) =
     bindE (f x) (\<lambda>b. bindE (filterE f xs) (\<lambda>r. Inr (if b then x # r else r)))"

fun mapE :: "('a \<Rightarrow> exn + 'b) \<Rightarrow> 'a list \<Rightarrow> exn + 'b list" where
  "mapE f [] = Inr []"
| "mapE f (x # xs) = bindE (f x) (\<lambda>y. bindE (mapE f xs) (\<lambda>r. Inr (y # r)))"

text \<open>\<open>log => log.jsonPayload && log.jsonPayload.message\<close>, as the condition of the
  filter reads it.\<close>

definition has_message :: "jsval \<Rightarrow> exn + bool" where
  "has_message log =
     bindE (get_prop log (js ''jsonPayload'')) (\<lambda>p.
       if truthy p
       then bindE (get_prop log (js ''jsonPayload'')) (\<lambda>p'.
            bindE (get_prop p' (js ''message'')) (\<lambda>m. Inr (truthy m)))
       else Inr False)"

text \<open>\<open>log => formatMessage(log.jsonPayload.message)\<close>.\<close>

definition format_log :: "jsval \<Rightarrow> exn + jsval" where
  "format_log log =
     bindE (get_prop log (js ''jsonPayload'')) (\<lambda>p.
     bindE (get_prop p (js ''message'')) (\<lambda>m. Inr (formatMessage m)))"

text \<open>What the effect leaves in the state of the component: \<open>outputMessages\<close>, \<open>error\<close>
  (\<open>None\<close> is the empty string, \<open>Some e\<close> the message of \<open>e\<close>) and \<open>messageCount\<close>; and
  \<open>orderedMessages\<close>, the array \<open>messages\<close> that \<open>outputMessages\<close> shows (empty when nothing
  is shown).\<close>

record extraction =
  orderedMessages :: "jsval list"
  outputMessages :: jstring
  messageCount :: nat
  error :: "exn option"

text \<open>The \<open>try\<close> block of the timer's function, up to the two values it stores.\<close>

definition extract_try :: "(jstring \<Rightarrow> int option) \<Rightarrow> jstring \<Rightarrow> exn + jsval list \<times> jstring" where
  "extract_try dp inputLogs =
     bindE (JSON_parse inputLogs) (\<lambda>logs.
       case logs of
         JArr entries \<Rightarrow>
           bindE (array_sort (compare_logs dp) entries) (\<lambda>sortedLogs.
           bindE (filterE has_message sortedLogs) (\<lambda>kept.
           bindE (mapE format_log kept) (\<lambda>messages.
           bindE (array_join messages [0x0A]) (\<lambda>out.
             Inr (messages, out)))))
       | _ \<Rightarrow> Inl (Error (js ''Input JSON must be an array of log entries'')))"

text \<open>The effect on \<open>inputLogs\<close>, the timer having fired: the early return on blank
  input, the \<open>try\<close> block, the \<open>catch\<close> block.\<close>

definition extract_messages :: "(jstring \<Rightarrow> int option) \<Rightarrow> jstring \<Rightarrow> extraction" where
  "extract_messages dp inputLogs =
     (if trim inputLogs = []
      then \<lparr>orderedMessages = [], outputMessages = [], messageCount = 0, error = None\<rparr>
      else (case extract_try dp inputLogs of
              Inr (messages, out) \<Rightarrow>
                \<lparr>orderedMessages = messages, outputMessages = out,
                 messageCount = length messages, error = None\<rparr>
            | Inl e \<Rightarrow>
                \<lparr>orderedMessages = [], outputMessages = [], messageCount = 0, error = Some e\<rparr>))"

text \<open>
  A stand-in for \<open>Date.parse\<close> in the examples below: it reads the two dates of the
  specification's examples as every engine does (the ISO format is fixed by the
  standard), and the examples pass no other string to it.
\<close>

definition Date_parse_example :: "jstring \<Rightarrow> int option" where
  "Date_parse_example s =
     (if s = js ''2020-01-01T00:00:00Z'' then Some 1577836800000
      else if s = js ''2020-01-02T00:00:00Z'' then Some 1577923200000
      else None)"

section \<open>Notions of the specification\<close>

text \<open>The first occurrence of a code unit in a string is at \<open>i\<close>; the last one is at \<open>j\<close>.\<close>

definition first_at :: "jstring \<Rightarrow> cu \<Rightarrow> nat \<Rightarrow> bool" where
  "first_at s c i = (i < length s \<and> s ! i = c \<and> c \<notin> set (take i s))"

definition last_at :: "jstring \<Rightarrow> cu \<Rightarrow> nat \<Rightarrow> bool" where
  "last_at s c j = (j < length s \<and> s ! j = c \<and> c \<notin> set (drop (Suc j) s))"

text \<open>The span of a message that \<open>formatMessage\<close> rewrites: it runs from the first
  \<open>{\<close>, at \<open>i\<close>, to the last \<open>}\<close>, at \<open>j\<close>, the last after the first, and it parses as JSON to
  \<open>v\<close>.\<close>

definition json_span :: "jstring \<Rightarrow> nat \<Rightarrow> nat \<Rightarrow> jsval \<Rightarrow> bool" where
  "json_span m i j v =
     (first_at m 0x7B i \<and> last_at m 0x7D j \<and> i < j \<and> JSON_parse (slice m i (Suc j)) = Inr v)"

text \<open>The property \<open>k\<close> of \<open>v\<close>, \<open>undefined\<close> when \<open>v\<close> has none; the value at the nested
  path \<open>jsonPayload.message\<close> of an entry, \<open>undefined\<close> when the path is missing; an entry
  whose value there is truthy; the formatted message of an entry.\<close>

definition prop_of :: "jsval \<Rightarrow> jstring \<Rightarrow> jsval" where
  "prop_of v k =
     (case v of
        JObj ps \<Rightarrow> (case map_of ps k of Some x \<Rightarrow> x | None \<Rightarrow> JUndefined)
      | _ \<Rightarrow> JUndefined)"

definition message_of :: "jsval \<Rightarrow> jsval" where
  "message_of log = prop_of (prop_of log (js ''jsonPayload'')) (js ''message'')"

definition has_truthy_message :: "jsval \<Rightarrow> bool" where
  "has_truthy_message log = truthy (message_of log)"

definition formatted_message :: "jsval \<Rightarrow> jsval" where
  "formatted_message log = formatMessage (message_of log)"

text \<open>The instant of an entry, in milliseconds, where its \<open>timestamp\<close> is read as a valid
  date (the value \<open>0\<close> stands in where it is not; the properties below use \<open>time_of\<close> only
  for entries with a valid date).\<close>

definition time_of :: "(jstring \<Rightarrow> int option) \<Rightarrow> jsval \<Rightarrow> int" where
  "time_of dp log = (case log_time dp log of Inr (Some t) \<Rightarrow> t | _ \<Rightarrow> 0)"

section \<open>The tests on lengths in the model\<close>

text \<open>
  \<open>str_tail\<close>, \<open>parse_elements\<close> and \<open>parse_members\<close> test how much text a step has left
  before they go on; the tests serve the termination proofs. None of them ever fails: an
  alternative of the starred group consumes at least one code unit and at most what is
  there, and a string, a number and a value each consume at least one code unit.
\<close>

lemma alt_bounds:
  assumes "alt = alt_unicode \<or> alt = alt_escape \<or> alt = alt_plain" and "alt cs = Some k"
  shows "0 < k \<and> k \<le> length cs"
  using assms
  by (auto simp: alt_unicode_def alt_escape_def alt_plain_def split: list.splits if_splits)

lemma parse_chars_length: "parse_chars cs acc = Some (s, rest) \<Longrightarrow> length rest < length cs"
proof (induction cs arbitrary: acc rule: length_induct)
  case (1 cs)
  have IH: "length rest < length ys" if "length ys < length cs" "parse_chars ys a = Some (s, rest)" for ys a
    using "1.IH" that by blast
  from "1.prems" obtain c cs' where cs: "cs = c # cs'" by (cases cs) auto
  show ?case
  proof (cases "c = 0x22")
    case True
    with "1.prems" cs show ?thesis by simp
  next
    case q: False
    show ?thesis
    proof (cases "c = 0x5C")
      case True
      with q "1.prems" cs obtain e r where cs': "cs' = e # r" by (cases cs') auto
      show ?thesis
      proof (cases "e = 0x75")
        case u: True
        with q True cs cs' "1.prems" obtain h1 h2 h3 h4 r' where r: "r = h1 # h2 # h3 # h4 # r'"
          by (auto split: list.splits)
        with q True cs cs' u "1.prems" obtain a where
          "parse_chars r' (acc @ [a]) = Some (s, rest)"
          by (auto split: option.splits)
        from IH[OF _ this] cs cs' r show ?thesis by simp
      next
        case nu: False
        with q True cs cs' "1.prems" obtain x where "parse_chars r (acc @ [x]) = Some (s, rest)"
          by (auto split: option.splits)
        from IH[OF _ this] cs cs' show ?thesis by simp
      qed
    next
      case False
      with q "1.prems" cs have "parse_chars cs' (acc @ [c]) = Some (s, rest)"
        by (auto split: if_splits)
      from IH[OF _ this] cs show ?thesis by simp
    qed
  qed
qed


lemma parse_number_length: "parse_number cs = Some (n, rest) \<Longrightarrow> length rest < length cs"
proof -
  assume a: "parse_number cs = Some (n, rest)"
  define neg where "neg = (case cs of c # _ \<Rightarrow> c = 0x2D | [] \<Rightarrow> False)"
  define cs1 where "cs1 = (if neg then tl cs else cs)"
  define intd where "intd = (case cs1 of
                    c # _ \<Rightarrow> if c = 0x30 then [c] else takeWhile is_digit cs1
                  | [] \<Rightarrow> [])"
  define cs2 where "cs2 = drop (length intd) cs1"
  define dot where "dot = (case cs2 of c # _ \<Rightarrow> c = 0x2E | [] \<Rightarrow> False)"
  define fracd where "fracd = (if dot then takeWhile is_digit (tl cs2) else [])"
  define cs3 where "cs3 = (if dot then drop (length fracd) (tl cs2) else cs2)"
  define ex where "ex = (case cs3 of c # _ \<Rightarrow> c = 0x65 \<or> c = 0x45 | [] \<Rightarrow> False)"
  define esign where "esign = (ex \<and> (case tl cs3 of c # _ \<Rightarrow> c = 0x2D \<or> c = 0x2B | [] \<Rightarrow> False))"
  define cs4 where "cs4 = (if esign then tl (tl cs3) else tl cs3)"
  define expd where "expd = (if ex then takeWhile is_digit cs4 else [])"
  define cs5 where "cs5 = (if ex then drop (length expd) cs4 else cs3)"
  define eneg where "eneg = (ex \<and> (case tl cs3 of c # _ \<Rightarrow> c = 0x2D | [] \<Rightarrow> False))"
  have eq: "parse_number cs =
     (if intd = [] \<or> (dot \<and> fracd = []) \<or> (ex \<and> expd = []) then None
      else Some (to_number neg (digits_val (intd @ fracd))
                      ((if eneg then - digits_val expd else digits_val expd) - int (length fracd)),
                    cs5))"
    unfolding parse_number_def Let_def neg_def cs1_def intd_def cs2_def dot_def fracd_def cs3_def
      ex_def eneg_def esign_def cs4_def expd_def cs5_def
    by (rule refl)
  from a have i: "intd \<noteq> []" and r: "rest = cs5"
    unfolding eq by (simp_all split: if_splits)
  have l1: "length cs1 \<le> length cs" by (simp add: cs1_def)
  have li: "length intd \<le> length cs1"
    by (auto simp: intd_def length_takeWhile_le split: list.splits)
  have l2: "length cs2 = length cs1 - length intd" by (simp add: cs2_def)
  have l3: "length cs3 \<le> length cs2" by (simp add: cs3_def)
  have l4: "length cs4 \<le> length cs3" by (simp add: cs4_def)
  have l5: "length cs5 \<le> length cs3" using l4 by (auto simp: cs5_def)
  from i have "0 < length intd" by simp
  with l1 li l2 l3 l5 show ?thesis unfolding r by linarith
qed


lemma parse_progress_aux:
  shows "\<forall>v rest. parse_value cs = Some (v, rest) \<longrightarrow> length rest < length cs"
    and "\<forall>vs rest. parse_elements cs' acc = Some (vs, rest) \<longrightarrow> length rest < length cs'"
    and "\<forall>ps rest. parse_members cs'' acc' = Some (ps, rest) \<longrightarrow> length rest < length cs''"
proof (induction cs and cs' acc and cs'' acc' rule: parse_value_parse_elements_parse_members.induct)
  case (1 cs)
  show ?case
  proof (intro allI impI)
    fix v rest
    assume a: "parse_value cs = Some (v, rest)"
    then obtain c r where cs: "cs = c # r"
      by (subst (asm) parse_value.simps) (auto split: list.splits)
    show "length rest < length cs"
    proof (cases "c = 0x7B")
      case True
      with a cs obtain c' r' where s: "skip_ws r = c' # r'"
        by (subst (asm) parse_value.simps) (auto split: list.splits)
      show ?thesis
      proof (cases "c' = 0x7D")
        case b: True
        with a cs True s have "rest = r'"
          by (subst (asm) parse_value.simps) simp
        with skip_ws_Cons_length[OF s] cs show ?thesis by simp
      next
        case b: False
        with a cs True s obtain ps where "parse_members (skip_ws r) [] = Some (ps, rest)"
          by (subst (asm) parse_value.simps) (auto split: option.splits)
        with "1.IH"(1)[OF cs True s b] have "length rest < length (skip_ws r)" by blast
        with length_skip_ws[of r] cs show ?thesis by simp
      qed
    next
      case nb: False
      show ?thesis
      proof (cases "c = 0x5B")
        case True
        with a cs nb obtain c' r' where s: "skip_ws r = c' # r'"
          by (subst (asm) parse_value.simps) (auto split: list.splits)
        show ?thesis
        proof (cases "c' = 0x5D")
          case b: True
          with a cs nb True s have "rest = r'"
            by (subst (asm) parse_value.simps) simp
          with skip_ws_Cons_length[OF s] cs show ?thesis by simp
        next
          case b: False
          with a cs nb True s obtain vs where "parse_elements (skip_ws r) [] = Some (vs, rest)"
            by (subst (asm) parse_value.simps) (auto split: option.splits)
          with "1.IH"(2)[OF cs nb True s b] have "length rest < length (skip_ws r)" by blast
          with length_skip_ws[of r] cs show ?thesis by simp
        qed
      next
        case na: False
        with a cs nb show ?thesis
          by (subst (asm) parse_value.simps)
             (auto split: if_splits option.splits dest!: parse_chars_length parse_number_length)
      qed
    qed
  qed
next
  case (2 cs acc)
  show ?case
  proof (intro allI impI)
    fix vs rest
    assume a: "parse_elements cs acc = Some (vs, rest)"
    from a obtain v rest1 where v: "parse_value cs = Some (v, rest1)"
      by (subst (asm) parse_elements.simps) (auto split: option.splits)
    from a v have g: "length rest1 < length cs"
      by (subst (asm) parse_elements.simps) (auto split: if_splits)
    from a v g obtain c r' where c: "skip_ws rest1 = c # r'"
      by (subst (asm) parse_elements.simps) (auto split: list.splits)
    show "length rest < length cs"
    proof (cases "c = 0x2C")
      case True
      with a v g c have "parse_elements (skip_ws r') (acc @ [v]) = Some (vs, rest)"
        by (subst (asm) parse_elements.simps) simp
      with "2.IH"(2)[OF v refl g c True] have "length rest < length (skip_ws r')" by blast
      with length_skip_ws[of r'] skip_ws_Cons_length[OF c] g show ?thesis by simp
    next
      case False
      with a v g c have "rest = r'"
        by (subst (asm) parse_elements.simps) (auto split: if_splits)
      with skip_ws_Cons_length[OF c] g show ?thesis by simp
    qed
  qed
next
  case (3 cs acc)
  show ?case
  proof (intro allI impI)
    fix ps rest
    assume a: "parse_members cs acc = Some (ps, rest)"
    then obtain c r where cs: "cs = c # r" and q: "c = 0x22"
      by (subst (asm) parse_members.simps) (auto split: list.splits if_splits)
    from a cs q obtain k rest1 where k: "parse_chars r [] = Some (k, rest1)"
      by (subst (asm) parse_members.simps) (auto split: option.splits)
    from a cs q k obtain c2 r2 where c2: "skip_ws rest1 = c2 # r2"
      by (subst (asm) parse_members.simps) (auto split: list.splits)
    from a cs q k c2 have g1: "c2 = 0x3A \<and> length r2 < length cs"
      by (subst (asm) parse_members.simps) (auto split: if_splits)
    from a cs q k c2 g1 obtain v rest2 where v: "parse_value (skip_ws r2) = Some (v, rest2)"
      by (subst (asm) parse_members.simps) (auto split: option.splits)
    from a cs q k c2 g1 v have g2: "length rest2 < length cs"
      by (subst (asm) parse_members.simps) (auto split: if_splits)
    from a cs q k c2 g1 v g2 obtain c3 r3 where c3: "skip_ws rest2 = c3 # r3"
      by (subst (asm) parse_members.simps) (auto split: list.splits)
    show "length rest < length cs"
    proof (cases "c3 = 0x2C")
      case True
      with a cs q k c2 g1 v g2 c3 have "parse_members (skip_ws r3) (obj_put k v acc) = Some (ps, rest)"
        by (subst (asm) parse_members.simps) simp
      with "3.IH"(2)[OF cs q k refl c2 g1 v refl g2 c3 True]
      have "length rest < length (skip_ws r3)" by blast
      with length_skip_ws[of r3] skip_ws_Cons_length[OF c3] g2 show ?thesis by simp
    next
      case False
      with a cs q k c2 g1 v g2 c3 have "rest = r3"
        by (subst (asm) parse_members.simps) (auto split: if_splits)
      with skip_ws_Cons_length[OF c3] g2 show ?thesis by simp
    qed
  qed
qed

lemma parse_value_progress: "parse_value cs = Some (v, rest) \<Longrightarrow> length rest < length cs"
  using parse_progress_aux(1) by blast

lemma parse_members_key_progress:
  "parse_chars r [] = Some (k, rest) \<Longrightarrow> skip_ws rest = c2 # r2 \<Longrightarrow> length r2 < length (c # r)"
  using parse_chars_length[of r "[]" k rest] skip_ws_Cons_length[of rest c2 r2] by simp

section \<open>Properties of the tokenizer\<close>

subsection \<open>Round trip\<close>

lemma slice_drop: "a \<le> b \<Longrightarrow> slice s a b @ drop b s = drop a s"
proof -
  assume "a \<le> b"
  then have "drop b s = drop (b - a) (drop a s)" by simp
  then show ?thesis unfolding slice_def by (metis append_take_drop_id)
qed

lemma slice_to_end: "slice s a (length s) = drop a s"
  by (simp add: slice_def)

lemma scan_concat:
  "lastIndex \<le> length t \<Longrightarrow>
     concat (map content (scan t lastIndex parts)) = concat (map content parts) @ drop lastIndex t"
proof (induction t lastIndex parts rule: scan.induct)
  case (1 t lastIndex parts)
  show ?case
  proof (cases "regex_exec t lastIndex")
    case None
    then show ?thesis
      using "1.prems" by (subst scan.simps) (simp add: slice_to_end)
  next
    case (Some m)
    obtain index n key where m: "m = (index, n, key)" by (cases m) auto
    from regex_exec_bounds[OF Some[unfolded m]]
    have b: "lastIndex \<le> index" "0 < n" "index + n \<le> length t" by auto
    define parts1 where "parts1 =
                 (if lastIndex < index
                  then parts @ [\<lparr>ttype = TText, content = slice t lastIndex index\<rparr>]
                  else parts)"
    define tok where "tok = slice t index (index + n)"
    define parts2 where "parts2 = parts1 @ [\<lparr>ttype = classify key tok, content = tok\<rparr>]"
    have IH: "concat (map content (scan t (index + n) parts2)) =
        concat (map content parts2) @ drop (index + n) t"
      using "1.IH"[OF Some[unfolded m] refl refl parts1_def tok_def parts2_def b(3)] .
    have unf: "scan t lastIndex parts = scan t (index + n) parts2"
      by (subst scan.simps) (simp add: Some m parts1_def tok_def parts2_def Let_def)
    have p1: "concat (map content parts1) @ drop index t = concat (map content parts) @ drop lastIndex t"
      using b(1) slice_drop[of lastIndex index t] by (auto simp: parts1_def)
    have "concat (map content parts2) @ drop (index + n) t
        = concat (map content parts1) @ (tok @ drop (index + n) t)"
      by (simp add: parts2_def)
    also have "tok @ drop (index + n) t = drop index t"
      unfolding tok_def by (rule slice_drop) simp
    finally show ?thesis using unf IH p1 by simp
  qed
qed

text \<open>
  Claim C1. For every input string \<open>s\<close>, the contents of the tokens of \<open>tokenize s\<close>,
  concatenated in order, are \<open>s\<close> again: no code unit is dropped, duplicated or moved.
\<close>

theorem tokenize_roundtrip: "concat (map content (tokenize s)) = s"
  by (simp add: tokenize_def scan_concat)

subsection \<open>The example of the specification\<close>

text \<open>
  Claim C5. On the input \<^verbatim>\<open>{"key": "value", "n": 42, "b": true}\<close> the tokens type
  \<^verbatim>\<open>"key":\<close>, \<^verbatim>\<open>"n":\<close> and \<^verbatim>\<open>"b":\<close> as keys, \<^verbatim>\<open>"value"\<close> as a string, \<^verbatim>\<open>42\<close> as a
  number, \<^verbatim>\<open>true\<close> as a boolean, and every span of punctuation and white space between
  them as text.
\<close>

theorem tokenize_example: \<open>tokenize (js ''{"key": "value", "n": 42, "b": true}'') =
  [\<lparr>ttype = TText, content = js ''{''\<rparr>,
   \<lparr>ttype = TKey, content = js ''"key":''\<rparr>,
   \<lparr>ttype = TText, content = js '' ''\<rparr>,
   \<lparr>ttype = TString, content = js ''"value"''\<rparr>,
   \<lparr>ttype = TText, content = js '', ''\<rparr>,
   \<lparr>ttype = TKey, content = js ''"n":''\<rparr>,
   \<lparr>ttype = TText, content = js '' ''\<rparr>,
   \<lparr>ttype = TNumber, content = js ''42''\<rparr>,
   \<lparr>ttype = TText, content = js '', ''\<rparr>,
   \<lparr>ttype = TKey, content = js ''"b":''\<rparr>,
   \<lparr>ttype = TText, content = js '' ''\<rparr>,
   \<lparr>ttype = TBoolean, content = js ''true''\<rparr>,
   \<lparr>ttype = TText, content = js ''}''\<rparr>]\<close>
  by code_simp


subsection \<open>Shape of the token list\<close>

lemma classify_not_text: "classify key tok \<noteq> TText"
  by (simp add: classify_def)

lemma adjacent_text_snoc:
  "adjacent_text (ts @ [t]) = (adjacent_text ts \<or> (ends_in_text ts \<and> ttype t = TText))"
proof (induction ts rule: adjacent_text.induct)
  case (1 a b ts)
  then show ?case by (auto simp: ends_in_text_def last_opt_def)
qed (simp_all add: ends_in_text_def last_opt_def)

lemma ends_in_text_snoc: "ends_in_text (ts @ [t]) = (ttype t = TText)"
  by (simp add: ends_in_text_def last_opt_def)

lemma slice_nonempty: "a < b \<Longrightarrow> b \<le> length s \<Longrightarrow> slice s a b \<noteq> []"
  by (simp add: slice_def)

lemma scan_shape:
  "lastIndex \<le> length t \<Longrightarrow> \<forall>x \<in> set parts. content x \<noteq> [] \<Longrightarrow>
   \<not> adjacent_text parts \<Longrightarrow> \<not> ends_in_text parts \<Longrightarrow>
     (\<forall>x \<in> set (scan t lastIndex parts). content x \<noteq> []) \<and> \<not> adjacent_text (scan t lastIndex parts)"
proof (induction t lastIndex parts rule: scan.induct)
  case (1 t lastIndex parts)
  show ?case
  proof (cases "regex_exec t lastIndex")
    case None
    then show ?thesis
      using "1.prems"
      by (subst (1 2) scan.simps) (auto simp: adjacent_text_snoc slice_nonempty)
  next
    case (Some m)
    obtain index n key where m: "m = (index, n, key)" by (cases m) auto
    from regex_exec_bounds[OF Some[unfolded m]]
    have b: "lastIndex \<le> index" "0 < n" "index + n \<le> length t" by auto
    define parts1 where "parts1 =
                 (if lastIndex < index
                  then parts @ [\<lparr>ttype = TText, content = slice t lastIndex index\<rparr>]
                  else parts)"
    define tok where "tok = slice t index (index + n)"
    define parts2 where "parts2 = parts1 @ [\<lparr>ttype = classify key tok, content = tok\<rparr>]"
    have unf: "scan t lastIndex parts = scan t (index + n) parts2"
      by (subst scan.simps) (simp add: Some m parts1_def tok_def parts2_def Let_def)
    have c1: "\<forall>x \<in> set parts1. content x \<noteq> []"
      using "1.prems"(2) b by (auto simp: parts1_def slice_nonempty)
    have a1: "\<not> adjacent_text parts1"
      using "1.prems"(3,4) by (auto simp: parts1_def adjacent_text_snoc)
    have "tok \<noteq> []" unfolding tok_def using b by (intro slice_nonempty) auto
    with c1 have c2: "\<forall>x \<in> set parts2. content x \<noteq> []" by (auto simp: parts2_def)
    have a2: "\<not> adjacent_text parts2"
      using a1 by (simp add: parts2_def adjacent_text_snoc classify_not_text)
    have e2: "\<not> ends_in_text parts2"
      by (simp add: parts2_def ends_in_text_snoc classify_not_text)
    from "1.IH"[OF Some[unfolded m] refl refl parts1_def tok_def parts2_def b(3) c2 a2 e2]
    show ?thesis unfolding unf .
  qed
qed

lemma adjacent_text_index:
  "\<not> adjacent_text ts \<Longrightarrow> Suc i < length ts \<Longrightarrow> \<not> (ttype (ts ! i) = TText \<and> ttype (ts ! Suc i) = TText)"
proof (induction ts arbitrary: i rule: adjacent_text.induct)
  case (1 a b ts)
  then show ?case by (cases i) auto
qed auto

text \<open>
  Claim C9. Every token of \<open>tokenize s\<close> has a non-empty content, and no two \<open>text\<close>
  tokens stand next to each other: between two lexemes that follow each other (and before
  the first, and after the last) there is at most one \<open>text\<close> token.
\<close>

theorem tokenize_tokens_shape:
  "(\<forall>x \<in> set (tokenize s). content x \<noteq> []) \<and>
   (\<forall>i. Suc i < length (tokenize s) \<longrightarrow>
      \<not> (ttype (tokenize s ! i) = TText \<and> ttype (tokenize s ! Suc i) = TText))"
proof -
  have "(\<forall>x \<in> set (scan s 0 []). content x \<noteq> []) \<and> \<not> adjacent_text (scan s 0 [])"
    by (rule scan_shape) (simp_all add: ends_in_text_def last_opt_def)
  then show ?thesis
    using adjacent_text_index[of "tokenize s"] by (auto simp: tokenize_def)
qed

theorem tokenize_tokens_shape_witness:
  \<open>tokenize (js ''a 1 b'') =
     [\<lparr>ttype = TText, content = js ''a ''\<rparr>, \<lparr>ttype = TNumber, content = js ''1''\<rparr>,
      \<lparr>ttype = TText, content = js '' b''\<rparr>] \<and>
   content (tokenize (js ''a 1 b'') ! 0) \<noteq> [] \<and>
   content (tokenize (js ''a 1 b'') ! 1) \<noteq> [] \<and>
   content (tokenize (js ''a 1 b'') ! 2) \<noteq> [] \<and>
   \<not> (ttype (tokenize (js ''a 1 b'') ! 0) = TText \<and> ttype (tokenize (js ''a 1 b'') ! 1) = TText) \<and>
   \<not> (ttype (tokenize (js ''a 1 b'') ! 1) = TText \<and> ttype (tokenize (js ''a 1 b'') ! 2) = TText)\<close>
proof -
  have toks: "tokenize (js ''a 1 b'') =
     [\<lparr>ttype = TText, content = js ''a ''\<rparr>, \<lparr>ttype = TNumber, content = js ''1''\<rparr>,
      \<lparr>ttype = TText, content = js '' b''\<rparr>]"
    by code_simp
  have len: "length (tokenize (js ''a 1 b'')) = 3"
    by (simp add: toks)
  note sh = tokenize_tokens_shape[of "js ''a 1 b''"]
  from sh have c: "\<And>x. x \<in> set (tokenize (js ''a 1 b'')) \<Longrightarrow> content x \<noteq> []"
    by blast
  from sh have a: "\<And>i. Suc i < length (tokenize (js ''a 1 b'')) \<Longrightarrow>
      \<not> (ttype (tokenize (js ''a 1 b'') ! i) = TText \<and> ttype (tokenize (js ''a 1 b'') ! Suc i) = TText)"
    by blast
  have c0: "content (tokenize (js ''a 1 b'') ! 0) \<noteq> []"
    by (rule c, rule nth_mem) (simp add: len)
  have c1: "content (tokenize (js ''a 1 b'') ! 1) \<noteq> []"
    by (rule c, rule nth_mem) (simp add: len)
  have c2: "content (tokenize (js ''a 1 b'') ! 2) \<noteq> []"
    by (rule c, rule nth_mem) (simp add: len)
  have a0: "\<not> (ttype (tokenize (js ''a 1 b'') ! 0) = TText \<and> ttype (tokenize (js ''a 1 b'') ! 1) = TText)"
    using a[of 0] by (simp add: len)
  have a1: "\<not> (ttype (tokenize (js ''a 1 b'') ! 1) = TText \<and> ttype (tokenize (js ''a 1 b'') ! 2) = TText)"
    using a[of 1] by (simp only: len Suc_1 numeral_2_eq_2 numeral_3_eq_3 One_nat_def lessI simp_thms)
  from toks c0 c1 c2 a0 a1 show ?thesis by blast
qed

section \<open>Properties of the extraction\<close>

subsection \<open>Blank input\<close>

lemma dropWhile_all_iff: "(\<forall>c \<in> set (dropWhile P xs). P c) \<longleftrightarrow> dropWhile P xs = []"
proof
  assume a: "\<forall>c \<in> set (dropWhile P xs). P c"
  show "dropWhile P xs = []"
  proof (cases "dropWhile P xs")
    case (Cons y ys)
    then have "\<not> P y" using hd_dropWhile[of P xs] by simp
    with a Cons show ?thesis by simp
  qed simp
qed (auto dest: set_dropWhileD)

lemma trim_empty_iff: "trim s = [] \<longleftrightarrow> (\<forall>c \<in> set s. is_space c)"
proof -
  have "trim s = [] \<longleftrightarrow> (\<forall>c \<in> set (dropWhile is_space s). is_space c)"
    by (simp add: trim_def)
  also have "\<dots> \<longleftrightarrow> dropWhile is_space s = []"
    by (rule dropWhile_all_iff)
  also have "\<dots> \<longleftrightarrow> (\<forall>c \<in> set s. is_space c)"
    by simp
  finally show ?thesis .
qed

lemma space_not_json_start:
  assumes "is_space c" "\<not> json_ws c"
  shows "c \<noteq> 0x7B" "c \<noteq> 0x5B" "c \<noteq> 0x22" "c \<noteq> 0x74" "c \<noteq> 0x66" "c \<noteq> 0x6E"
    "c \<noteq> 0x2D" "c \<noteq> 0x30" "\<not> is_digit c"
  using assms by (auto simp: is_space_def json_ws_def is_digit_def word_le_nat_alt)

lemma parse_value_space:
  assumes "is_space c" "\<not> json_ws c"
  shows "parse_value (c # r) = None"
proof -
  note n = space_not_json_start[OF assms]
  have "parse_number (c # r) = None"
    using n by (simp add: parse_number_def Let_def)
  then show ?thesis
    using n by (subst parse_value.simps) (simp add: startsWith_def js_def)
qed

lemma JSON_parse_blank:
  assumes "\<forall>c \<in> set s. is_space c"
  shows "JSON_parse s = Inl SyntaxError"
proof (cases "skip_ws s")
  case Nil
  then show ?thesis by (simp add: JSON_parse_def parse_value.simps)
next
  case (Cons c r)
  then have "c \<in> set s" "\<not> json_ws c"
    unfolding skip_ws_def
    by (metis list.set_intros(1) set_dropWhileD, metis hd_dropWhile list.sel(1) list.distinct(1))
  with assms have "parse_value (c # r) = None" by (intro parse_value_space) auto
  with Cons show ?thesis by (simp add: JSON_parse_def)
qed

text \<open>
  Claim C8. For every input that is empty or consists of white space only, the effect
  leaves no messages, the count 0 and no error. The input is not parsed on the way:
  \<open>JSON.parse\<close> of such a text is a \<open>SyntaxError\<close>, which the \<open>catch\<close> block would have stored
  in \<open>error\<close>.
\<close>

theorem extract_blank:
  assumes "\<forall>c \<in> set s. is_space c"
  shows "extract_messages dp s =
           \<lparr>orderedMessages = [], outputMessages = [], messageCount = 0, error = None\<rparr>
         \<and> JSON_parse s = Inl SyntaxError"
  using assms JSON_parse_blank[OF assms] by (simp add: extract_messages_def trim_empty_iff)

theorem extract_blank_witness:
  "extract_messages Date_parse_example (js ''   '') =
     \<lparr>orderedMessages = [], outputMessages = [], messageCount = 0, error = None\<rparr>
   \<and> JSON_parse (js ''   '') = Inl SyntaxError"
  using extract_blank[of "js ''   ''" Date_parse_example] by (simp add: js_def is_space_def)

subsection \<open>Input that is not an array\<close>

text \<open>
  Claim C7. For every input that parses as JSON to a value that is no array, the effect
  stores the message \<open>Input JSON must be an array of log entries\<close> in \<open>error\<close>, no messages
  and the count 0.
\<close>

theorem extract_not_array:
  assumes "JSON_parse s = Inr v" and "\<forall>es. v \<noteq> JArr es"
  shows "extract_messages dp s =
           \<lparr>orderedMessages = [], outputMessages = [], messageCount = 0,
            error = Some (Error (js ''Input JSON must be an array of log entries''))\<rparr>"
proof -
  have nb: "trim s \<noteq> []"
    using assms(1) JSON_parse_blank[of s] by (auto simp: trim_empty_iff)
  have "extract_try dp s = Inl (Error (js ''Input JSON must be an array of log entries''))"
    using assms by (cases v) (simp_all add: extract_try_def bindE_def)
  with nb show ?thesis by (simp add: extract_messages_def)
qed

theorem extract_not_array_witness:
  \<open>extract_messages Date_parse_example (js ''{"a":1}'') =
           \<lparr>orderedMessages = [], outputMessages = [], messageCount = 0,
            error = Some (Error (js ''Input JSON must be an array of log entries''))\<rparr>\<close>
proof -
  have p: \<open>JSON_parse (js ''{"a":1}'') = Inr (JObj [(js ''a'', JNum (Dbl 1 0))])\<close>
    by code_simp
  show ?thesis
    by (rule extract_not_array[OF p]) simp
qed

subsection \<open>\<open>formatMessage\<close> on strings\<close>

lemma startsWith_single: "startsWith (x # xs) [c] = (x = c)"
  by (simp add: startsWith_def)

lemma index_from_absent: "c \<notin> set s \<Longrightarrow> index_from [c] s k = - 1"
  by (induction s arbitrary: k) (auto simp: startsWith_single)

lemma index_from_first: "first_at s c i \<Longrightarrow> index_from [c] s k = int (k + i)"
proof (induction s arbitrary: k i)
  case Nil
  then show ?case by (simp add: first_at_def)
next
  case (Cons x xs)
  show ?case
  proof (cases i)
    case 0
    with Cons.prems show ?thesis by (simp add: first_at_def startsWith_single)
  next
    case (Suc i')
    with Cons.prems have "x \<noteq> c" "first_at xs c i'" by (auto simp: first_at_def)
    with Cons.IH[of i' "Suc k"] Suc show ?thesis by (simp add: startsWith_single)
  qed
qed

lemma last_index_from_absent: "c \<notin> set s \<Longrightarrow> last_index_from [c] s k = - 1"
  by (induction s arbitrary: k) (auto simp: startsWith_single Let_def)

lemma last_index_from_last: "last_at s c j \<Longrightarrow> last_index_from [c] s k = int (k + j)"
proof (induction s arbitrary: k j)
  case Nil
  then show ?case by (simp add: last_at_def)
next
  case (Cons x xs)
  show ?case
  proof (cases j)
    case 0
    with Cons.prems have "x = c" "c \<notin> set xs" by (auto simp: last_at_def)
    then show ?thesis using 0 by (simp add: last_index_from_absent startsWith_single Let_def)
  next
    case (Suc j')
    with Cons.prems have "last_at xs c j'" by (auto simp: last_at_def)
    from Cons.IH[OF this, of "Suc k"] Suc show ?thesis by (simp add: Let_def)
  qed
qed

lemma first_at_exists: "c \<in> set s \<Longrightarrow> \<exists>i. first_at s c i"
proof (induction s)
  case Nil
  then show ?case by simp
next
  case (Cons x xs)
  show ?case
  proof (cases "x = c")
    case True
    then have "first_at (x # xs) c 0" by (simp add: first_at_def)
    then show ?thesis ..
  next
    case False
    with Cons obtain i where "first_at xs c i" by auto
    with False have "first_at (x # xs) c (Suc i)" by (auto simp: first_at_def)
    then show ?thesis ..
  qed
qed

lemma last_at_exists: "c \<in> set s \<Longrightarrow> \<exists>j. last_at s c j"
proof (induction s)
  case Nil
  then show ?case by simp
next
  case (Cons x xs)
  show ?case
  proof (cases "c \<in> set xs")
    case True
    with Cons obtain j where "last_at xs c j" by auto
    then have "last_at (x # xs) c (Suc j)" by (auto simp: last_at_def)
    then show ?thesis ..
  next
    case False
    with Cons.prems have "last_at (x # xs) c 0" by (auto simp: last_at_def)
    then show ?thesis ..
  qed
qed

lemma first_at_unique: "first_at s c i \<Longrightarrow> first_at s c i' \<Longrightarrow> i = i'"
  using index_from_first[of s c i 0] index_from_first[of s c i' 0] by simp

lemma last_at_unique: "last_at s c j \<Longrightarrow> last_at s c j' \<Longrightarrow> j = j'"
  using last_index_from_last[of s c j 0] last_index_from_last[of s c j' 0] by simp

lemma nat_int_Suc: "nat (int j + 1) = Suc j"
  by arith

lemma substring_inner: "i \<le> j \<Longrightarrow> j < length s \<Longrightarrow> substring s (int i) (int j + 1) = slice s i (Suc j)"
  by (simp add: substring_def Let_def min_def max_def nat_int_Suc)

lemma substring_prefix: "i \<le> length s \<Longrightarrow> substring s 0 (int i) = take i s"
  by (simp add: substring_def Let_def slice_def min_def max_def)

lemma substring_suffix: "j < length s \<Longrightarrow> substring_from s (int j + 1) = drop (Suc j) s"
  by (simp add: substring_from_def substring_def Let_def slice_def min_def max_def nat_int_Suc)

lemma parse_value_defined: "parse_value cs = Some (v, r) \<Longrightarrow> v \<noteq> JUndefined"
  by (subst (asm) parse_value.simps) (auto split: list.splits if_splits option.splits)

lemma JSON_parse_defined: "JSON_parse s = Inr v \<Longrightarrow> v \<noteq> JUndefined"
  by (auto simp: JSON_parse_def split: option.splits if_splits dest: parse_value_defined)

lemma JSON_stringify_defined: "v \<noteq> JUndefined \<Longrightarrow> \<exists>t. JSON_stringify v = Some t"
  by (cases v) (simp_all add: JSON_stringify_def)

lemma js_braces: "js ''{'' = [0x7B]" "js ''}'' = [0x7D]"
  by (simp_all add: js_def)

lemma formatMessage_braces:
  assumes "first_at m 0x7B i" "last_at m 0x7D j"
  shows "formatMessage (JStr m) =
           (if i < j
            then (case JSON_parse (slice m i (Suc j)) of
                    Inl e \<Rightarrow> JStr m
                  | Inr v \<Rightarrow>
                      JStr (take i m @ (case JSON_stringify v of None \<Rightarrow> js ''undefined'' | Some t \<Rightarrow> t)
                              @ drop (Suc j) m))
            else JStr m)"
proof -
  have f: "indexOf m [0x7B] = int i" using index_from_first[OF assms(1), of 0] by (simp add: indexOf_def)
  have l: "lastIndexOf m [0x7D] = int j" using last_index_from_last[OF assms(2), of 0] by (simp add: lastIndexOf_def)
  have b: "i < length m" "j < length m" using assms by (auto simp: first_at_def last_at_def)
  show ?thesis
  proof (cases "i < j")
    case True
    then show ?thesis
      using b
      by (simp add: formatMessage_def formatMessage_try_def call_indexOf_def call_lastIndexOf_def
          call_substring_def call_substring_from_def bindE_def js_braces f l reformat_def
          substring_inner substring_prefix substring_suffix Let_def split: sum.splits)
  next
    case False
    then show ?thesis
      by (simp add: formatMessage_def formatMessage_try_def call_indexOf_def call_lastIndexOf_def
          bindE_def js_braces f l)
  qed
qed

lemma formatMessage_no_brace:
  assumes "0x7B \<notin> set m \<or> 0x7D \<notin> set m"
  shows "formatMessage (JStr m) = JStr m"
proof -
  from assms have "indexOf m [0x7B] = - 1 \<or> lastIndexOf m [0x7D] = - 1"
    by (auto simp: indexOf_def lastIndexOf_def index_from_absent last_index_from_absent)
  then show ?thesis
    by (auto simp: formatMessage_def formatMessage_try_def call_indexOf_def call_lastIndexOf_def
          bindE_def js_braces)
qed

text \<open>
  Claim C4. For every message string: when the first \<open>{\<close> is at \<open>i\<close>, the last \<open>}\<close> at
  \<open>j > i\<close>, and the text from \<open>i\<close> to \<open>j\<close> inclusive parses as JSON to \<open>v\<close>, \<open>formatMessage\<close>
  returns the text before \<open>i\<close>, the serialization of \<open>v\<close> with an indentation of two spaces,
  and the text after \<open>j\<close>; when there is no such span (a brace is missing, the last \<open>}\<close> is
  not after the first \<open>{\<close>, or the text between them does not parse), it returns the
  message unchanged.
\<close>

theorem formatMessage_string:
  "(\<forall>i j v. json_span m i j v \<longrightarrow>
      (\<exists>t. JSON_stringify v = Some t \<and>
           formatMessage (JStr m) = JStr (take i m @ t @ drop (Suc j) m))) \<and>
   ((\<nexists>i j v. json_span m i j v) \<longrightarrow> formatMessage (JStr m) = JStr m)"
proof (intro conjI allI impI)
  fix i j v
  assume s: "json_span m i j v"
  then have p: "JSON_parse (slice m i (Suc j)) = Inr v" by (simp add: json_span_def)
  from JSON_stringify_defined[OF JSON_parse_defined[OF p]]
  obtain t where t: "JSON_stringify v = Some t" ..
  from s have "formatMessage (JStr m) = JStr (take i m @ t @ drop (Suc j) m)"
    by (simp add: json_span_def formatMessage_braces[of m i j] t)
  with t show "\<exists>t. JSON_stringify v = Some t \<and>
           formatMessage (JStr m) = JStr (take i m @ t @ drop (Suc j) m)" by blast
next
  assume n: "\<nexists>i j v. json_span m i j v"
  show "formatMessage (JStr m) = JStr m"
  proof (cases "0x7B \<in> set m \<and> 0x7D \<in> set m")
    case False
    then show ?thesis by (intro formatMessage_no_brace) auto
  next
    case True
    then obtain i j where ij: "first_at m 0x7B i" "last_at m 0x7D j"
      using first_at_exists last_at_exists by blast
    with n have "\<not> i < j \<or> (\<forall>v. JSON_parse (slice m i (Suc j)) \<noteq> Inr v)"
      by (auto simp: json_span_def)
    then show ?thesis
      by (auto simp: formatMessage_braces[OF ij] split: sum.splits)
  qed
qed

theorem formatMessage_string_witness:
  \<open>formatMessage (JStr (js ''prefix {"a":1,"b":[1,2]} suffix'')) =
     JStr (js ''prefix {'' @ [0x0A] @ js ''  "a": 1,'' @ [0x0A] @ js ''  "b": ['' @ [0x0A]
           @ js ''    1,'' @ [0x0A] @ js ''    2'' @ [0x0A] @ js ''  ]'' @ [0x0A] @ js ''} suffix'') \<and>
   formatMessage (JStr (js ''no braces here'')) = JStr (js ''no braces here'')\<close>
proof -
  let ?m = \<open>js ''prefix {"a":1,"b":[1,2]} suffix''\<close>
  let ?v = "JObj [(js ''a'', JNum (Dbl 1 0)), (js ''b'', JArr [JNum (Dbl 1 0), JNum (Dbl 1 1)])]"
  have span: "json_span ?m 7 23 ?v"
    by code_simp
  from formatMessage_string[of ?m] span
  obtain t where t: "JSON_stringify ?v = Some t"
    and f: "formatMessage (JStr ?m) = JStr (take 7 ?m @ t @ drop (Suc 23) ?m)"
    by blast
  have \<open>JSON_stringify ?v = Some (js ''{'' @ [0x0A] @ js ''  "a": 1,'' @ [0x0A] @ js ''  "b": ['' @ [0x0A]
           @ js ''    1,'' @ [0x0A] @ js ''    2'' @ [0x0A] @ js ''  ]'' @ [0x0A] @ js ''}'')\<close>
    by code_simp
  with t have t': \<open>t = js ''{'' @ [0x0A] @ js ''  "a": 1,'' @ [0x0A] @ js ''  "b": ['' @ [0x0A]
           @ js ''    1,'' @ [0x0A] @ js ''    2'' @ [0x0A] @ js ''  ]'' @ [0x0A] @ js ''}''\<close>
    by simp
  have 1: \<open>formatMessage (JStr ?m) =
     JStr (js ''prefix {'' @ [0x0A] @ js ''  "a": 1,'' @ [0x0A] @ js ''  "b": ['' @ [0x0A]
           @ js ''    1,'' @ [0x0A] @ js ''    2'' @ [0x0A] @ js ''  ]'' @ [0x0A] @ js ''} suffix'')\<close>
    unfolding f t' by (simp add: js_def)
  have nb: "0x7B \<notin> set (js ''no braces here'')"
    by code_simp
  have "\<nexists>i j v. json_span (js ''no braces here'') i j v"
  proof
    assume "\<exists>i j v. json_span (js ''no braces here'') i j v"
    then obtain i where "first_at (js ''no braces here'') 0x7B i"
      by (auto simp: json_span_def)
    then have "0x7B \<in> set (js ''no braces here'')"
      unfolding first_at_def using nth_mem by metis
    with nb show False by simp
  qed
  with formatMessage_string[of "js ''no braces here''"]
  have 2: "formatMessage (JStr (js ''no braces here'')) = JStr (js ''no braces here'')"
    by blast
  from 1 2 show ?thesis by blast
qed

subsection \<open>Reading properties, filtering, sorting\<close>

lemma get_prop_total: "v \<noteq> JNull \<Longrightarrow> v \<noteq> JUndefined \<Longrightarrow> get_prop v k = Inr (prop_of v k)"
  by (cases v) (simp_all add: get_prop_def prop_of_def)

lemma get_prop_Inr: "get_prop v k = Inr x \<Longrightarrow> x = prop_of v k \<and> v \<noteq> JNull \<and> v \<noteq> JUndefined"
  by (cases v) (auto simp: get_prop_def prop_of_def)

lemma prop_of_falsy: "\<not> truthy v \<Longrightarrow> prop_of v k = JUndefined"
  by (cases v) (simp_all add: truthy_def prop_of_def)

lemma truthy_defined: "truthy v \<Longrightarrow> v \<noteq> JNull \<and> v \<noteq> JUndefined"
  by (cases v) (simp_all add: truthy_def)

lemma not_truthy_undefined: "\<not> truthy JUndefined"
  by (simp add: truthy_def)

lemma has_message_total:
  assumes "log \<noteq> JNull" "log \<noteq> JUndefined"
  shows "has_message log = Inr (has_truthy_message log)"
proof (cases "truthy (prop_of log (js ''jsonPayload''))")
  case True
  with truthy_defined[OF True] assms show ?thesis
    by (simp add: has_message_def get_prop_total bindE_def has_truthy_message_def message_of_def)
next
  case False
  with assms prop_of_falsy[OF False] show ?thesis
    by (simp add: has_message_def get_prop_total bindE_def has_truthy_message_def message_of_def
        not_truthy_undefined)
qed

lemma has_message_Inr: "has_message log = Inr b \<Longrightarrow> b = has_truthy_message log"
proof -
  assume a: "has_message log = Inr b"
  then have "log \<noteq> JNull \<and> log \<noteq> JUndefined"
    by (cases log) (auto simp: has_message_def get_prop_def bindE_def)
  with a has_message_total[of log] show ?thesis by simp
qed

lemma has_truthy_message_defined: "has_truthy_message log \<Longrightarrow> log \<noteq> JNull \<and> log \<noteq> JUndefined"
  by (cases log) (auto simp: has_truthy_message_def message_of_def prop_of_def truthy_def)

lemma format_log_kept:
  assumes "has_truthy_message log"
  shows "format_log log = Inr (formatted_message log)"
proof -
  from has_truthy_message_defined[OF assms] have d: "log \<noteq> JNull" "log \<noteq> JUndefined" by auto
  have "truthy (prop_of log (js ''jsonPayload''))"
  proof (rule ccontr)
    assume "\<not> truthy (prop_of log (js ''jsonPayload''))"
    from prop_of_falsy[OF this] assms show False
      by (simp add: has_truthy_message_def message_of_def not_truthy_undefined)
  qed
  from truthy_defined[OF this] d show ?thesis
    by (simp add: format_log_def get_prop_total bindE_def formatted_message_def message_of_def)
qed

lemma filterE_total: "\<forall>x \<in> set xs. f x = Inr (p x) \<Longrightarrow> filterE f xs = Inr (filter p xs)"
  by (induction xs) (simp_all add: bindE_def)

lemma mapE_total: "\<forall>x \<in> set xs. f x = Inr (g x) \<Longrightarrow> mapE f xs = Inr (map g xs)"
  by (induction xs) (simp_all add: bindE_def)

lemma filterE_Inr:
  "filterE f xs = Inr r \<Longrightarrow> (\<And>x b. f x = Inr b \<Longrightarrow> b = p x) \<Longrightarrow> r = filter p xs"
proof (induction xs arbitrary: r)
  case Nil
  then show ?case by simp
next
  case (Cons x xs)
  from Cons.prems(1) obtain b r' where b: "f x = Inr b" and r': "filterE f xs = Inr r'"
    and r: "r = (if b then x # r' else r')"
    by (auto simp: bindE_def split: sum.splits)
  from Cons.IH[OF r' Cons.prems(2)] Cons.prems(2)[OF b] r show ?case by simp
qed

lemma insert_sorted_mset: "insert_sorted c x ys = Inr r \<Longrightarrow> mset r = add_mset x (mset ys)"
proof (induction ys arbitrary: r)
  case Nil
  then show ?case by auto
next
  case (Cons y ys)
  then show ?case by (auto simp: bindE_def split: sum.splits if_splits)
qed

lemma sort_into_mset: "sort_into c xs acc = Inr r \<Longrightarrow> mset r = mset xs + mset acc"
proof (induction xs arbitrary: acc)
  case Nil
  then show ?case by auto
next
  case (Cons x xs)
  from Cons.prems obtain acc' where a: "insert_sorted c x acc = Inr acc'"
    and s: "sort_into c xs acc' = Inr r"
    by (auto simp: bindE_def split: sum.splits)
  from Cons.IH[OF s] insert_sorted_mset[OF a] show ?case by simp
qed

lemma array_sort_mset: "array_sort c xs = Inr r \<Longrightarrow> mset r = mset xs"
  using sort_into_mset[of c xs "[]" r] by (simp add: array_sort_def)

lemma insert_sorted_keyed:
  assumes "\<forall>y \<in> set ys. c y x = Inr (Some (key y - key x))"
  shows "\<exists>r. insert_sorted c x ys = Inr r \<and> set r = insert x (set ys) \<and>
           (sorted_wrt (\<lambda>a b. key b \<le> key a) ys \<longrightarrow> sorted_wrt (\<lambda>a b. key b \<le> key a) r) \<and>
           (\<forall>t. filter (\<lambda>e. key e = t) (rev r) = filter (\<lambda>e. key e = t) (rev ys @ [x]))"
  using assms
proof (induction ys)
  case Nil
  then show ?case by simp
next
  case (Cons y ys)
  from Cons.prems have cy: "c y x = Inr (Some (key y - key x))" by simp
  show ?case
  proof (cases "key x < key y")
    case True
    from Cons obtain r where r: "insert_sorted c x ys = Inr r" "set r = insert x (set ys)"
      "sorted_wrt (\<lambda>a b. key b \<le> key a) ys \<longrightarrow> sorted_wrt (\<lambda>a b. key b \<le> key a) r"
      "\<forall>t. filter (\<lambda>e. key e = t) (rev r) = filter (\<lambda>e. key e = t) (rev ys @ [x])"
      by auto
    have 1: "insert_sorted c x (y # ys) = Inr (y # r)"
      using True cy r(1) by (simp add: bindE_def comes_after_def)
    have 2: "set (y # r) = insert x (set (y # ys))" using r(2) by auto
    have 3: "sorted_wrt (\<lambda>a b. key b \<le> key a) (y # ys) \<longrightarrow> sorted_wrt (\<lambda>a b. key b \<le> key a) (y # r)"
      using r(2,3) True by auto
    have 4: "\<forall>t. filter (\<lambda>e. key e = t) (rev (y # r)) = filter (\<lambda>e. key e = t) (rev (y # ys) @ [x])"
      using r(4) True by auto
    from 1 2 3 4 show ?thesis by blast
  next
    case False
    have 1: "insert_sorted c x (y # ys) = Inr (x # y # ys)"
      using False cy by (simp add: bindE_def comes_after_def)
    have 3: "sorted_wrt (\<lambda>a b. key b \<le> key a) (y # ys) \<longrightarrow> sorted_wrt (\<lambda>a b. key b \<le> key a) (x # y # ys)"
      using False by auto
    from 1 3 show ?thesis by auto
  qed
qed

lemma sort_into_keyed:
  assumes "\<forall>a \<in> set xs \<union> set acc. \<forall>b \<in> set xs \<union> set acc. c a b = Inr (Some (key a - key b))"
    and "sorted_wrt (\<lambda>a b. key b \<le> key a) acc"
  shows "\<exists>r. sort_into c xs acc = Inr r \<and> sorted (map key r) \<and>
           (\<forall>t. filter (\<lambda>e. key e = t) r = filter (\<lambda>e. key e = t) (rev acc @ xs))"
  using assms
proof (induction xs arbitrary: acc)
  case Nil
  have "sorted (map key (rev acc))"
    using Nil.prems(2) by (simp add: sorted_map sorted_wrt_rev)
  then show ?case by simp
next
  case (Cons x xs)
  have "\<forall>y \<in> set acc. c y x = Inr (Some (key y - key x))"
    using Cons.prems(1) by simp
  from insert_sorted_keyed[of acc c x key, OF this]
  obtain acc' where a: "insert_sorted c x acc = Inr acc'" "set acc' = insert x (set acc)"
    "sorted_wrt (\<lambda>a b. key b \<le> key a) acc'"
    "\<forall>t. filter (\<lambda>e. key e = t) (rev acc') = filter (\<lambda>e. key e = t) (rev acc @ [x])"
    using Cons.prems(2) by blast
  have "\<forall>a \<in> set xs \<union> set acc'. \<forall>b \<in> set xs \<union> set acc'. c a b = Inr (Some (key a - key b))"
    using Cons.prems(1) a(2) by auto
  from Cons.IH[OF this a(3)]
  obtain r where r: "sort_into c xs acc' = Inr r" "sorted (map key r)"
    "\<forall>t. filter (\<lambda>e. key e = t) r = filter (\<lambda>e. key e = t) (rev acc' @ xs)"
    by blast
  have "sort_into c (x # xs) acc = Inr r" using a(1) r(1) by (simp add: bindE_def)
  moreover have "\<forall>t. filter (\<lambda>e. key e = t) r = filter (\<lambda>e. key e = t) (rev acc @ x # xs)"
    using r(3) a(4) by simp
  ultimately show ?case using r(2) by blast
qed

lemma array_sort_keyed:
  assumes "\<forall>a \<in> set xs. \<forall>b \<in> set xs. c a b = Inr (Some (key a - key b))"
  shows "\<exists>r. array_sort c xs = Inr r \<and> mset r = mset xs \<and> sorted (map key r) \<and>
           (\<forall>t. filter (\<lambda>e. key e = t) r = filter (\<lambda>e. key e = t) xs)"
proof -
  from sort_into_keyed[of xs "[]" c key] assms
  obtain r where r: "sort_into c xs [] = Inr r" "sorted (map key r)"
    "\<forall>t. filter (\<lambda>e. key e = t) r = filter (\<lambda>e. key e = t) xs"
    by auto
  with sort_into_mset[OF r(1)] show ?thesis by (auto simp: array_sort_def)
qed

lemma compare_logs_valid:
  assumes "log_time dp a = Inr (Some ta)" "log_time dp b = Inr (Some tb)"
  shows "compare_logs dp a b = Inr (Some (time_of dp a - time_of dp b))"
  using assms by (simp add: compare_logs_def bindE_def time_of_def)

lemma parse_defined_aux:
  shows "parse_value cs = parse_value cs"
    and "\<forall>vs r. parse_elements cs' acc = Some (vs, r) \<longrightarrow> JUndefined \<notin> set acc \<longrightarrow> JUndefined \<notin> set vs"
    and "parse_members cs'' acc' = parse_members cs'' acc'"
proof (induction cs and cs' acc and cs'' acc' rule: parse_value_parse_elements_parse_members.induct)
  case (1 cs)
  show ?case by simp
next
  case (2 cs acc)
  show ?case
  proof (intro allI impI)
    fix vs r
    assume a: "parse_elements cs acc = Some (vs, r)" and u: "JUndefined \<notin> set acc"
    from a obtain v rest where v: "parse_value cs = Some (v, rest)"
      by (subst (asm) parse_elements.simps) (auto split: option.splits)
    from a v have g: "length rest < length cs"
      by (subst (asm) parse_elements.simps) (auto split: if_splits)
    from a v g obtain c r' where c: "skip_ws rest = c # r'"
      by (subst (asm) parse_elements.simps) (auto split: list.splits)
    have vd: "v \<noteq> JUndefined" using parse_value_defined[OF v] .
    show "JUndefined \<notin> set vs"
    proof (cases "c = 0x2C")
      case True
      with a v g c have "parse_elements (skip_ws r') (acc @ [v]) = Some (vs, r)"
        by (subst (asm) parse_elements.simps) simp
      moreover have "JUndefined \<notin> set (acc @ [v])" using u vd by auto
      ultimately show ?thesis
        using "2.IH"(2)[OF v refl g c True] by blast
    next
      case False
      with a v g c have "vs = acc @ [v]"
        by (subst (asm) parse_elements.simps) (auto split: if_splits)
      with u vd show ?thesis by auto
    qed
  qed
next
  case (3 cs acc)
  show ?case by simp
qed

lemma JSON_parse_array_defined:
  assumes "JSON_parse s = Inr (JArr es)"
  shows "JUndefined \<notin> set es"
proof -
  from assms obtain rest where p: "parse_value (skip_ws s) = Some (JArr es, rest)"
    by (auto simp: JSON_parse_def split: option.splits if_splits)
  then have "es = [] \<or> (\<exists>cs. parse_elements cs [] = Some (es, rest))"
    by (subst (asm) parse_value.simps) (auto split: list.splits if_splits option.splits)
  with parse_defined_aux(2) show ?thesis by fastforce
qed

lemma extract_messages_parsed:
  assumes "JSON_parse s = Inr v"
  shows "extract_messages dp s =
           (case extract_try dp s of
              Inr (messages, out) \<Rightarrow>
                \<lparr>orderedMessages = messages, outputMessages = out,
                 messageCount = length messages, error = None\<rparr>
            | Inl e \<Rightarrow>
                \<lparr>orderedMessages = [], outputMessages = [], messageCount = 0, error = Some e\<rparr>)"
proof -
  have "trim s \<noteq> []"
    using assms JSON_parse_blank[of s] by (auto simp: trim_empty_iff)
  then show ?thesis by (simp add: extract_messages_def)
qed

lemma log_time_defined: "log_time dp e = Inr t \<Longrightarrow> e \<noteq> JNull \<and> e \<noteq> JUndefined"
  by (cases e) (auto simp: log_time_def get_prop_def bindE_def)

lemma extract_try_nonnull:
  assumes parse: "JSON_parse s = Inr (JArr es)" and nn: "\<forall>e \<in> set es. e \<noteq> JNull"
  shows "extract_try dp s =
           bindE (array_sort (compare_logs dp) es) (\<lambda>sortedLogs.
           bindE (array_join (map formatted_message (filter has_truthy_message sortedLogs)) [0x0A])
             (\<lambda>out. Inr (map formatted_message (filter has_truthy_message sortedLogs), out)))"
proof (cases "array_sort (compare_logs dp) es")
  case (Inl x)
  then show ?thesis by (simp add: extract_try_def parse bindE_def)
next
  case (Inr sortedLogs)
  from array_sort_mset[OF Inr] have "set sortedLogs = set es" by (rule mset_eq_setD)
  with nn JSON_parse_array_defined[OF parse]
  have d: "\<forall>e \<in> set sortedLogs. e \<noteq> JNull \<and> e \<noteq> JUndefined" by auto
  then have f: "filterE has_message sortedLogs = Inr (filter has_truthy_message sortedLogs)"
    by (intro filterE_total) (simp add: has_message_total)
  have m: "mapE format_log (filter has_truthy_message sortedLogs)
             = Inr (map formatted_message (filter has_truthy_message sortedLogs))"
    by (intro mapE_total) (simp add: format_log_kept)
  show ?thesis by (simp add: extract_try_def parse Inr bindE_def f m)
qed

lemma insert_sorted_raises: "insert_sorted c x ys = Inl e \<Longrightarrow> \<exists>y \<in> set ys. c y x = Inl e"
proof (induction ys)
  case Nil
  then show ?case by simp
next
  case (Cons y ys)
  then show ?case by (auto simp: bindE_def split: sum.splits if_splits)
qed

lemma sort_into_raises:
  "sort_into c xs acc = Inl e \<Longrightarrow> \<exists>a \<in> set xs \<union> set acc. \<exists>b \<in> set xs \<union> set acc. c a b = Inl e"
proof (induction xs arbitrary: acc)
  case Nil
  then show ?case by simp
next
  case (Cons x xs)
  show ?case
  proof (cases "insert_sorted c x acc")
    case (Inl e')
    with Cons.prems have "e' = e" by (simp add: bindE_def)
    with insert_sorted_raises[OF Inl] show ?thesis by auto
  next
    case (Inr acc')
    with Cons.prems have "sort_into c xs acc' = Inl e" by (simp add: bindE_def)
    from Cons.IH[OF this] obtain a b where
      ab: "a \<in> set xs \<union> set acc'" "b \<in> set xs \<union> set acc'" "c a b = Inl e" by blast
    from insert_sorted_mset[OF Inr] have "set acc' = insert x (set acc)"
      by (metis set_mset_add_mset_insert set_mset_mset)
    with ab show ?thesis by auto
  qed
qed

lemma array_sort_raises: "array_sort c xs = Inl e \<Longrightarrow> \<exists>a \<in> set xs. \<exists>b \<in> set xs. c a b = Inl e"
  using sort_into_raises[of c xs "[]" e] by (simp add: array_sort_def)

lemma compare_logs_raises:
  "compare_logs dp a b = Inl e \<Longrightarrow> log_time dp a = Inl e \<or> log_time dp b = Inl e"
  by (auto simp: compare_logs_def bindE_def split: sum.splits)

lemma ToString_elems_raises: "ToString_elems vs = Inl e \<Longrightarrow> \<exists>v \<in> set vs. ToString v = Inl e"
proof (induction vs)
  case Nil
  then show ?case by simp
next
  case (Cons v vs)
  then show ?case by (auto simp: bindE_def split: sum.splits if_splits)
qed

lemma array_join_raises: "array_join vs sep = Inl e \<Longrightarrow> \<exists>v \<in> set vs. ToString v = Inl e"
  by (auto simp: array_join_def bindE_def split: sum.splits dest: ToString_elems_raises)

lemma extract_try_Inr:
  assumes parse: "JSON_parse s = Inr (JArr es)" and ok: "extract_try dp s = Inr (messages, out)"
  shows "\<exists>sortedLogs. array_sort (compare_logs dp) es = Inr sortedLogs \<and>
           messages = map formatted_message (filter has_truthy_message sortedLogs)"
proof -
  from ok parse obtain sortedLogs kept where
    s: "array_sort (compare_logs dp) es = Inr sortedLogs"
    and f: "filterE has_message sortedLogs = Inr kept"
    and m: "mapE format_log kept = Inr messages"
    by (auto simp: extract_try_def bindE_def split: sum.splits)
  from filterE_Inr[OF f has_message_Inr] have k: "kept = filter has_truthy_message sortedLogs" .
  have "mapE format_log kept = Inr (map formatted_message kept)"
    unfolding k by (intro mapE_total) (simp add: format_log_kept)
  with m k s show ?thesis by simp
qed

subsection \<open>Messages and error\<close>

text \<open>
  Claim C2, as amended. On empty or all-white-space input there are no messages and no
  error. On every input at most one of the two holds: \<open>orderedMessages\<close> is not empty,
  \<open>error\<close> is set. On every other input exactly one of them holds, unless the input
  parses to an array in which no entry has a truthy value at \<open>jsonPayload.message\<close>: then
  there are no messages, and an error only when the run raised an exception.
\<close>

theorem extract_one_of_two:
  "((\<forall>c \<in> set s. is_space c) \<longrightarrow>
      orderedMessages (extract_messages dp s) = [] \<and> error (extract_messages dp s) = None) \<and>
   (orderedMessages (extract_messages dp s) = [] \<or> error (extract_messages dp s) = None) \<and>
   (\<not> (\<forall>c \<in> set s. is_space c) \<and>
    \<not> (\<exists>es. JSON_parse s = Inr (JArr es) \<and> (\<forall>e \<in> set es. \<not> has_truthy_message e)) \<longrightarrow>
      orderedMessages (extract_messages dp s) \<noteq> [] \<or> error (extract_messages dp s) \<noteq> None) \<and>
   ((\<exists>es. JSON_parse s = Inr (JArr es) \<and> (\<forall>e \<in> set es. \<not> has_truthy_message e)) \<longrightarrow>
      orderedMessages (extract_messages dp s) = [])"
proof -
  have 1: "orderedMessages (extract_messages dp s) = [] \<and> error (extract_messages dp s) = None"
    if "\<forall>c \<in> set s. is_space c"
    using that by (simp add: extract_messages_def trim_empty_iff)
  have 2: "orderedMessages (extract_messages dp s) = [] \<or> error (extract_messages dp s) = None"
    by (auto simp: extract_messages_def split: sum.splits)
  have 3: "orderedMessages (extract_messages dp s) \<noteq> [] \<or> error (extract_messages dp s) \<noteq> None"
    if a: "\<not> (\<forall>c \<in> set s. is_space c) \<and>
      \<not> (\<exists>es. JSON_parse s = Inr (JArr es) \<and> (\<forall>e \<in> set es. \<not> has_truthy_message e))"
  proof (rule ccontr)
    assume "\<not> (orderedMessages (extract_messages dp s) \<noteq> [] \<or> error (extract_messages dp s) \<noteq> None)"
    then have n: "orderedMessages (extract_messages dp s) = []" "error (extract_messages dp s) = None"
      by auto
    from a have nb: "trim s \<noteq> []" by (simp add: trim_empty_iff)
    with n obtain out where ok: "extract_try dp s = Inr ([], out)"
      by (auto simp: extract_messages_def split: sum.splits)
    then obtain es where p: "JSON_parse s = Inr (JArr es)"
      by (auto simp: extract_try_def bindE_def split: sum.splits jsval.splits)
    from extract_try_Inr[OF p ok] obtain sortedLogs where
      s: "array_sort (compare_logs dp) es = Inr sortedLogs"
      and e: "[] = map formatted_message (filter has_truthy_message sortedLogs)" by blast
    from array_sort_mset[OF s] have "set sortedLogs = set es" by (rule mset_eq_setD)
    moreover from e have "\<forall>x \<in> set sortedLogs. \<not> has_truthy_message x"
      by (simp add: filter_empty_conv)
    ultimately have "\<forall>x \<in> set es. \<not> has_truthy_message x" by simp
    with p a show False by blast
  qed
  have 4: "orderedMessages (extract_messages dp s) = []"
    if "\<exists>es. JSON_parse s = Inr (JArr es) \<and> (\<forall>e \<in> set es. \<not> has_truthy_message e)"
  proof -
    from that obtain es where p: "JSON_parse s = Inr (JArr es)"
      and n: "\<forall>e \<in> set es. \<not> has_truthy_message e"
      by blast
    show ?thesis
    proof (cases "extract_try dp s")
      case (Inl x)
      then show ?thesis by (simp add: extract_messages_parsed[OF p])
    next
      case (Inr mo)
      obtain messages out where mo: "mo = (messages, out)" by (cases mo)
      from extract_try_Inr[OF p Inr[unfolded mo]] obtain sortedLogs where
        s: "array_sort (compare_logs dp) es = Inr sortedLogs"
        and e: "messages = map formatted_message (filter has_truthy_message sortedLogs)" by blast
      from array_sort_mset[OF s] have "set sortedLogs = set es" by (rule mset_eq_setD)
      with n e have "messages = []" by (simp add: filter_empty_conv)
      with Inr mo show ?thesis by (simp add: extract_messages_parsed[OF p])
    qed
  qed
  from 1 2 3 4 show ?thesis by blast
qed

theorem extract_one_of_two_witness:
  \<open>orderedMessages (extract_messages Date_parse_example (js ''[{"jsonPayload":{"message":"m"}}]'')) \<noteq> [] \<and>
   error (extract_messages Date_parse_example (js ''[{"jsonPayload":{"message":"m"}}]'')) = None \<and>
   orderedMessages (extract_messages Date_parse_example (js ''[{'')) = [] \<and>
   error (extract_messages Date_parse_example (js ''[{'')) = Some SyntaxError \<and>
   orderedMessages (extract_messages Date_parse_example (js '' '')) = [] \<and>
   error (extract_messages Date_parse_example (js '' '')) = None \<and>
   orderedMessages (extract_messages Date_parse_example (js ''[{"jsonPayload":{}}]'')) = []\<close>
proof -
  let ?s1 = \<open>js ''[{"jsonPayload":{"message":"m"}}]''\<close>
  let ?e1 = "JObj [(js ''jsonPayload'', JObj [(js ''message'', JStr (js ''m''))])]"
  let ?s2 = \<open>js ''[{''\<close>
  let ?s4 = \<open>js ''[{"jsonPayload":{}}]''\<close>
  let ?e4 = "JObj [(js ''jsonPayload'', JObj [])]"
  note t1 = extract_one_of_two[of ?s1 Date_parse_example]
  note t2 = extract_one_of_two[of ?s2 Date_parse_example]
  note t3 = extract_one_of_two[of "js '' ''" Date_parse_example]
  note t4 = extract_one_of_two[of ?s4 Date_parse_example]
  have p1: "JSON_parse ?s1 = Inr (JArr [?e1])" by code_simp
  have h1: "has_truthy_message ?e1" by code_simp
  have nb1: "\<not> (\<forall>c \<in> set ?s1. is_space c)" by code_simp
  have "\<not> (\<exists>es. JSON_parse ?s1 = Inr (JArr es) \<and> (\<forall>e \<in> set es. \<not> has_truthy_message e))"
    using h1 by (simp add: p1)
  with t1 nb1 have "orderedMessages (extract_messages Date_parse_example ?s1) \<noteq> []
      \<or> error (extract_messages Date_parse_example ?s1) \<noteq> None"
    by blast
  moreover have e1: "error (extract_messages Date_parse_example ?s1) = None" by code_simp
  ultimately have 1: "orderedMessages (extract_messages Date_parse_example ?s1) \<noteq> []" by simp
  have e2: "error (extract_messages Date_parse_example ?s2) = Some SyntaxError" by code_simp
  with t2 have 2: "orderedMessages (extract_messages Date_parse_example ?s2) = []" by auto
  have "\<forall>c \<in> set (js '' ''). is_space c" by code_simp
  with t3 have 3: "orderedMessages (extract_messages Date_parse_example (js '' '')) = []"
    "error (extract_messages Date_parse_example (js '' '')) = None" by blast+
  have p4: "JSON_parse ?s4 = Inr (JArr [?e4])" by code_simp
  have h4: "\<not> has_truthy_message ?e4" by code_simp
  have "\<exists>es. JSON_parse ?s4 = Inr (JArr es) \<and> (\<forall>e \<in> set es. \<not> has_truthy_message e)"
    using h4 by (simp add: p4)
  with t4 have 4: "orderedMessages (extract_messages Date_parse_example ?s4) = []" by blast
  from 1 e1 2 e2 3 4 show ?thesis by blast
qed

text \<open>
  Claim C2 as stated asks for exactly one of the two on every input that is not blank.
  On the empty array neither holds: the input is not blank, there is no message and no
  error.
\<close>

theorem extract_neither_counterexample:
  "trim (js ''[]'') \<noteq> [] \<and>
   orderedMessages (extract_messages Date_parse_example (js ''[]'')) = [] \<and>
   error (extract_messages Date_parse_example (js ''[]'')) = None"
  by code_simp

subsection \<open>Entries without a message\<close>

text \<open>
  Claim C6, as amended. For every input array whose entries are not \<open>null\<close>, the entries
  whose value at \<open>jsonPayload.message\<close> is missing or not truthy are dropped without an
  exception. When the run ends without an error, the messages are, up to their order, the
  formatted messages of the entries with a truthy value there, and the count is the
  number of such entries of the input. When \<open>error\<close> is set, there are no messages, the
  count is 0, and the exception came from reading the time of an entry for the sort or
  from converting the message of a retained entry to a string for the final \<open>join\<close>; the
  absence of a message never sets it.
\<close>

theorem extract_drops_without_message:
  assumes "JSON_parse s = Inr (JArr es)" and "\<forall>e \<in> set es. e \<noteq> JNull"
  shows "(error (extract_messages dp s) = None \<longrightarrow>
            mset (orderedMessages (extract_messages dp s))
              = mset (map formatted_message (filter has_truthy_message es)) \<and>
            messageCount (extract_messages dp s) = length (filter has_truthy_message es)) \<and>
         (error (extract_messages dp s) \<noteq> None \<longrightarrow>
            orderedMessages (extract_messages dp s) = [] \<and>
            messageCount (extract_messages dp s) = 0 \<and>
            ((\<exists>e \<in> set es. \<exists>x. log_time dp e = Inl x) \<or>
             (\<exists>e \<in> set es. has_truthy_message e \<and> (\<exists>x. ToString (formatted_message e) = Inl x))))"
proof (cases "array_sort (compare_logs dp) es")
  case (Inl x)
  from array_sort_raises[OF Inl] compare_logs_raises
  have "\<exists>e \<in> set es. \<exists>x. log_time dp e = Inl x" by blast
  with Inl show ?thesis
    by (simp add: extract_messages_parsed[OF assms(1)] extract_try_nonnull[OF assms] bindE_def)
next
  case (Inr sortedLogs)
  from array_sort_mset[OF Inr] have ms: "mset sortedLogs = mset es" .
  then have st: "set sortedLogs = set es" by (rule mset_eq_setD)
  let ?kept = "filter has_truthy_message sortedLogs"
  have "mset (map formatted_message ?kept)
          = image_mset formatted_message (filter_mset has_truthy_message (mset sortedLogs))"
    by simp
  also have "\<dots> = image_mset formatted_message (filter_mset has_truthy_message (mset es))"
    by (simp only: ms)
  also have "\<dots> = mset (map formatted_message (filter has_truthy_message es))"
    by simp
  finally have m: "mset (map formatted_message ?kept)
          = mset (map formatted_message (filter has_truthy_message es))" .
  from mset_eq_length[OF m] have l: "length ?kept = length (filter has_truthy_message es)"
    by simp
  show ?thesis
  proof (cases "array_join (map formatted_message ?kept) [0x0A]")
    case j: (Inl x)
    from array_join_raises[OF j] st
    have "\<exists>e \<in> set es. has_truthy_message e \<and> (\<exists>x. ToString (formatted_message e) = Inl x)"
      by auto
    with Inr j show ?thesis
      by (simp add: extract_messages_parsed[OF assms(1)] extract_try_nonnull[OF assms] bindE_def)
  next
    case j: (Inr out)
    with Inr m l show ?thesis
      by (simp add: extract_messages_parsed[OF assms(1)] extract_try_nonnull[OF assms] bindE_def)
  qed
qed

theorem extract_drops_without_message_witness:
  \<open>error (extract_messages Date_parse_example
     (js ''[{"timestamp":"2020-01-01T00:00:00Z","jsonPayload":{}}, {"timestamp":"2020-01-02T00:00:00Z","jsonPayload":{"message":"kept"}}]'')) = None \<and>
   mset (orderedMessages (extract_messages Date_parse_example
     (js ''[{"timestamp":"2020-01-01T00:00:00Z","jsonPayload":{}}, {"timestamp":"2020-01-02T00:00:00Z","jsonPayload":{"message":"kept"}}]'')))
     = mset [JStr (js ''kept'')] \<and>
   messageCount (extract_messages Date_parse_example
     (js ''[{"timestamp":"2020-01-01T00:00:00Z","jsonPayload":{}}, {"timestamp":"2020-01-02T00:00:00Z","jsonPayload":{"message":"kept"}}]'')) = 1 \<and>
   error (extract_messages Date_parse_example
     (js ''[{"jsonPayload":{}}, {"jsonPayload":{"message":{"toString":null}}}]'')) = Some TypeError \<and>
   orderedMessages (extract_messages Date_parse_example
     (js ''[{"jsonPayload":{}}, {"jsonPayload":{"message":{"toString":null}}}]'')) = [] \<and>
   messageCount (extract_messages Date_parse_example
     (js ''[{"jsonPayload":{}}, {"jsonPayload":{"message":{"toString":null}}}]'')) = 0\<close>
proof -
  let ?s = \<open>js ''[{"timestamp":"2020-01-01T00:00:00Z","jsonPayload":{}}, {"timestamp":"2020-01-02T00:00:00Z","jsonPayload":{"message":"kept"}}]''\<close>
  let ?es = "[JObj [(js ''timestamp'', JStr (js ''2020-01-01T00:00:00Z'')), (js ''jsonPayload'', JObj [])],
              JObj [(js ''timestamp'', JStr (js ''2020-01-02T00:00:00Z'')),
                    (js ''jsonPayload'', JObj [(js ''message'', JStr (js ''kept''))])]]"
  let ?s' = \<open>js ''[{"jsonPayload":{}}, {"jsonPayload":{"message":{"toString":null}}}]''\<close>
  let ?es' = "[JObj [(js ''jsonPayload'', JObj [])],
               JObj [(js ''jsonPayload'', JObj [(js ''message'', JObj [(js ''toString'', JNull)])])]]"
  have p: "JSON_parse ?s = Inr (JArr ?es)" by code_simp
  have nn: "\<forall>e \<in> set ?es. e \<noteq> JNull" by simp
  have e: "error (extract_messages Date_parse_example ?s) = None" by code_simp
  have k: "map formatted_message (filter has_truthy_message ?es) = [JStr (js ''kept'')]" by code_simp
  from extract_drops_without_message[OF p nn, of Date_parse_example] e
  have 1: "mset (orderedMessages (extract_messages Date_parse_example ?s))
              = mset (map formatted_message (filter has_truthy_message ?es))"
    and 2: "messageCount (extract_messages Date_parse_example ?s) = length (filter has_truthy_message ?es)"
    by blast+
  from 1 have k1: "mset (orderedMessages (extract_messages Date_parse_example ?s)) = mset [JStr (js ''kept'')]"
    by (simp only: k)
  have "length (filter has_truthy_message ?es) = length (map formatted_message (filter has_truthy_message ?es))"
    by (simp only: length_map)
  with 2 have k2: "messageCount (extract_messages Date_parse_example ?s) = 1"
    by (simp only: k) simp
  have p': "JSON_parse ?s' = Inr (JArr ?es')" by code_simp
  have nn': "\<forall>e \<in> set ?es'. e \<noteq> JNull" by simp
  have e': "error (extract_messages Date_parse_example ?s') = Some TypeError" by code_simp
  then have "error (extract_messages Date_parse_example ?s') \<noteq> None" by simp
  with extract_drops_without_message[OF p' nn', of Date_parse_example]
  have 3: "orderedMessages (extract_messages Date_parse_example ?s') = []"
    and 4: "messageCount (extract_messages Date_parse_example ?s') = 0"
    by blast+
  from e k1 k2 e' 3 4 show ?thesis by blast
qed

text \<open>
  Claim C6 as stated covers every input array. An entry that is \<open>null\<close> has no value at
  \<open>jsonPayload.message\<close>, but reading \<open>jsonPayload\<close> of it is a \<open>TypeError\<close>: the batch is
  aborted and \<open>error\<close> is set.
\<close>

theorem extract_null_entry_counterexample:
  "JSON_parse (js ''[null]'') = Inr (JArr [JNull]) \<and>
   \<not> has_truthy_message JNull \<and>
   extract_messages Date_parse_example (js ''[null]'') =
     \<lparr>orderedMessages = [], outputMessages = [], messageCount = 0, error = Some TypeError\<rparr>"
  by code_simp

subsection \<open>Order of the messages\<close>

text \<open>
  Claim C3, as amended. When the \<open>timestamp\<close> of every entry is read as a valid instant,
  the entries with a truthy message come out in ascending order of their instants, and
  entries with the same instant keep the order they have in the input: for each instant,
  the surviving entries with that instant are the same list before and after. The
  messages are the formatted messages of these entries, in that order.
\<close>

theorem extract_sorted_stable:
  assumes "JSON_parse s = Inr (JArr es)" and "\<forall>e \<in> set es. \<exists>t. log_time dp e = Inr (Some t)"
  shows "\<exists>kept.
           mset kept = mset (filter has_truthy_message es) \<and>
           sorted (map (time_of dp) kept) \<and>
           (\<forall>t. filter (\<lambda>e. time_of dp e = t) kept
                 = filter (\<lambda>e. time_of dp e = t) (filter has_truthy_message es)) \<and>
           extract_messages dp s =
             (case array_join (map formatted_message kept) [0x0A] of
                Inl x \<Rightarrow>
                  \<lparr>orderedMessages = [], outputMessages = [], messageCount = 0, error = Some x\<rparr>
              | Inr out \<Rightarrow>
                  \<lparr>orderedMessages = map formatted_message kept, outputMessages = out,
                   messageCount = length kept, error = None\<rparr>)"
proof -
  have nn: "\<forall>e \<in> set es. e \<noteq> JNull"
    using assms(2) log_time_defined by blast
  have "\<forall>a \<in> set es. \<forall>b \<in> set es. compare_logs dp a b = Inr (Some (time_of dp a - time_of dp b))"
    using assms(2) compare_logs_valid by blast
  from array_sort_keyed[OF this]
  obtain r where r: "array_sort (compare_logs dp) es = Inr r" "mset r = mset es"
    "sorted (map (time_of dp) r)"
    "\<forall>t. filter (\<lambda>e. time_of dp e = t) r = filter (\<lambda>e. time_of dp e = t) es"
    by blast
  let ?kept = "filter has_truthy_message r"
  have 1: "mset ?kept = mset (filter has_truthy_message es)"
    using r(2) by (simp add: mset_filter)
  have 2: "sorted (map (time_of dp) ?kept)"
    using r(3) by (rule sorted_filter)
  have 3: "\<forall>t. filter (\<lambda>e. time_of dp e = t) ?kept
                 = filter (\<lambda>e. time_of dp e = t) (filter has_truthy_message es)"
  proof
    fix t
    have "filter (\<lambda>e. time_of dp e = t) ?kept = filter has_truthy_message (filter (\<lambda>e. time_of dp e = t) r)"
      by (simp add: conj_commute)
    also have "\<dots> = filter has_truthy_message (filter (\<lambda>e. time_of dp e = t) es)"
      using r(4) by simp
    also have "\<dots> = filter (\<lambda>e. time_of dp e = t) (filter has_truthy_message es)"
      by (simp add: conj_commute)
    finally show "filter (\<lambda>e. time_of dp e = t) ?kept
                 = filter (\<lambda>e. time_of dp e = t) (filter has_truthy_message es)" .
  qed
  have 4: "extract_messages dp s =
             (case array_join (map formatted_message ?kept) [0x0A] of
                Inl x \<Rightarrow>
                  \<lparr>orderedMessages = [], outputMessages = [], messageCount = 0, error = Some x\<rparr>
              | Inr out \<Rightarrow>
                  \<lparr>orderedMessages = map formatted_message ?kept, outputMessages = out,
                   messageCount = length ?kept, error = None\<rparr>)"
    by (simp add: extract_messages_parsed[OF assms(1)] extract_try_nonnull[OF assms(1) nn] bindE_def r(1)
        split: sum.splits)
  from 1 2 3 4 show ?thesis by blast
qed

theorem extract_sorted_stable_witness:
  \<open>(\<exists>kept.
      mset kept = mset (filter has_truthy_message
        [JObj [(js ''timestamp'', JStr (js ''2020-01-02T00:00:00Z'')),
               (js ''jsonPayload'', JObj [(js ''message'', JStr (js ''c''))])],
         JObj [(js ''timestamp'', JStr (js ''2020-01-01T00:00:00Z'')),
               (js ''jsonPayload'', JObj [(js ''message'', JStr (js ''a''))])],
         JObj [(js ''timestamp'', JStr (js ''2020-01-01T00:00:00Z'')),
               (js ''jsonPayload'', JObj [(js ''message'', JStr (js ''b''))])]]) \<and>
      sorted (map (time_of Date_parse_example) kept) \<and>
      extract_messages Date_parse_example
        (js ''[{"timestamp":"2020-01-02T00:00:00Z","jsonPayload":{"message":"c"}}, {"timestamp":"2020-01-01T00:00:00Z","jsonPayload":{"message":"a"}}, {"timestamp":"2020-01-01T00:00:00Z","jsonPayload":{"message":"b"}}]'')
      = (case array_join (map formatted_message kept) [0x0A] of
           Inl x \<Rightarrow>
             \<lparr>orderedMessages = [], outputMessages = [], messageCount = 0, error = Some x\<rparr>
         | Inr out \<Rightarrow>
             \<lparr>orderedMessages = map formatted_message kept, outputMessages = out,
              messageCount = length kept, error = None\<rparr>)) \<and>
   orderedMessages (extract_messages Date_parse_example
        (js ''[{"timestamp":"2020-01-02T00:00:00Z","jsonPayload":{"message":"c"}}, {"timestamp":"2020-01-01T00:00:00Z","jsonPayload":{"message":"a"}}, {"timestamp":"2020-01-01T00:00:00Z","jsonPayload":{"message":"b"}}]''))
     = [JStr (js ''a''), JStr (js ''b''), JStr (js ''c'')]\<close>
proof -
  let ?e1 = "JObj [(js ''timestamp'', JStr (js ''2020-01-02T00:00:00Z'')),
               (js ''jsonPayload'', JObj [(js ''message'', JStr (js ''c''))])]"
  let ?e2 = "JObj [(js ''timestamp'', JStr (js ''2020-01-01T00:00:00Z'')),
               (js ''jsonPayload'', JObj [(js ''message'', JStr (js ''a''))])]"
  let ?e3 = "JObj [(js ''timestamp'', JStr (js ''2020-01-01T00:00:00Z'')),
               (js ''jsonPayload'', JObj [(js ''message'', JStr (js ''b''))])]"
  let ?s = \<open>js ''[{"timestamp":"2020-01-02T00:00:00Z","jsonPayload":{"message":"c"}}, {"timestamp":"2020-01-01T00:00:00Z","jsonPayload":{"message":"a"}}, {"timestamp":"2020-01-01T00:00:00Z","jsonPayload":{"message":"b"}}]''\<close>
  have p: "JSON_parse ?s = Inr (JArr [?e1, ?e2, ?e3])"
    by code_simp
  have t1: "log_time Date_parse_example ?e1 = Inr (Some 1577923200000)" by code_simp
  have t2: "log_time Date_parse_example ?e2 = Inr (Some 1577836800000)" by code_simp
  have t3: "log_time Date_parse_example ?e3 = Inr (Some 1577836800000)" by code_simp
  have valid: "\<forall>e \<in> set [?e1, ?e2, ?e3]. \<exists>t. log_time Date_parse_example e = Inr (Some t)"
    by (simp add: t1 t2 t3)
  from extract_sorted_stable[OF p valid]
  have 1: "\<exists>kept.
      mset kept = mset (filter has_truthy_message [?e1, ?e2, ?e3]) \<and>
      sorted (map (time_of Date_parse_example) kept) \<and>
      extract_messages Date_parse_example ?s
      = (case array_join (map formatted_message kept) [0x0A] of
           Inl x \<Rightarrow>
             \<lparr>orderedMessages = [], outputMessages = [], messageCount = 0, error = Some x\<rparr>
         | Inr out \<Rightarrow>
             \<lparr>orderedMessages = map formatted_message kept, outputMessages = out,
              messageCount = length kept, error = None\<rparr>)"
    by blast
  have 2: "orderedMessages (extract_messages Date_parse_example ?s)
     = [JStr (js ''a''), JStr (js ''b''), JStr (js ''c'')]"
    by code_simp
  from 1 2 show ?thesis by blast
qed

text \<open>
  Claim C3 as stated covers every input. An entry without a \<open>timestamp\<close> has the time
  \<open>NaN\<close>, which compares as equal to every time; between two entries with valid instants it
  keeps the later one before the earlier one.
\<close>

theorem extract_invalid_time_counterexample:
  \<open>log_time Date_parse_example
     (JObj [(js ''timestamp'', JStr (js ''2020-01-02T00:00:00Z'')),
            (js ''jsonPayload'', JObj [(js ''message'', JStr (js ''b''))])])
     = Inr (Some 1577923200000) \<and>
   log_time Date_parse_example
     (JObj [(js ''jsonPayload'', JObj [(js ''message'', JStr (js ''x''))])]) = Inr None \<and>
   log_time Date_parse_example
     (JObj [(js ''timestamp'', JStr (js ''2020-01-01T00:00:00Z'')),
            (js ''jsonPayload'', JObj [(js ''message'', JStr (js ''a''))])])
     = Inr (Some 1577836800000) \<and>
   extract_messages Date_parse_example
     (js ''[{"timestamp":"2020-01-02T00:00:00Z","jsonPayload":{"message":"b"}}, {"jsonPayload":{"message":"x"}}, {"timestamp":"2020-01-01T00:00:00Z","jsonPayload":{"message":"a"}}]'')
   = \<lparr>orderedMessages = [JStr (js ''b''), JStr (js ''x''), JStr (js ''a'')],
      outputMessages = js ''b'' @ [0x0A] @ js ''x'' @ [0x0A] @ js ''a'',
      messageCount = 3, error = None\<rparr>\<close>
  by code_simp

subsection \<open>Messages that are not strings\<close>





end
